theory Spec2Isabelle
  imports Main "HOL-Library.Multiset" "HOL-Library.AList"
begin

section \<open>Go primitives used by logpeck\<close>

text \<open>
  A Go runtime panic is a value: every indexing expression, integer division and
  single-valued type assertion of the source is a branch that may yield one.
\<close>

datatype panic =
  IndexOutOfRange | IntegerDivideByZero | TypeAssertion | NilDereference | PanicValue string

text \<open>
  \<open>int64\<close> values are integers; arithmetic that can leave the 64-bit range wraps around
  (two's complement), division truncates towards zero and panics on a zero divisor.
\<close>

definition wrap64 :: "int \<Rightarrow> int" where
  "wrap64 x = (x + 2 ^ 63) mod 2 ^ 64 - 2 ^ 63"

definition add64 :: "int \<Rightarrow> int \<Rightarrow> int" where
  "add64 a b = wrap64 (a + b)"

definition sub64 :: "int \<Rightarrow> int \<Rightarrow> int" where
  "sub64 a b = wrap64 (a - b)"

definition mul64 :: "int \<Rightarrow> int \<Rightarrow> int" where
  "mul64 a b = wrap64 (a * b)"

definition quot :: "int \<Rightarrow> int \<Rightarrow> int" where
  "quot a b = sgn a * sgn b * (\<bar>a\<bar> div \<bar>b\<bar>)"

definition div64 :: "int \<Rightarrow> int \<Rightarrow> panic + int" where
  "div64 a b = (if b = 0 then Inl IntegerDivideByZero else Inr (wrap64 (quot a b)))"

text \<open>Slice reads \<open>xs[i]\<close> and writes \<open>xs[i] = v\<close> with an \<open>int64\<close> index.\<close>

definition idx :: "'a list \<Rightarrow> int \<Rightarrow> panic + 'a" where
  "idx xs i = (if 0 \<le> i \<and> i < int (length xs) then Inr (xs ! nat i) else Inl IndexOutOfRange)"

definition upd :: "'a list \<Rightarrow> int \<Rightarrow> 'a \<Rightarrow> panic + 'a list" where
  "upd xs i v = (if 0 \<le> i \<and> i < int (length xs) then Inr (xs[nat i := v]) else Inl IndexOutOfRange)"

text \<open>
  \<open>strconv.ParseInt(s, 10, 64)\<close>: an optional sign, then one or more decimal digits, the
  value inside the \<open>int64\<close> range; \<open>None\<close> stands for a non-nil \<open>err\<close>.
\<close>

definition isDigit :: "char \<Rightarrow> bool" where
  "isDigit c = (48 \<le> (of_char c :: int) \<and> (of_char c :: int) \<le> 57)"

definition digitVal :: "char \<Rightarrow> int" where
  "digitVal c = (of_char c :: int) - 48"

definition ParseUint :: "string \<Rightarrow> int option" where
  "ParseUint s =
     (if s = [] \<or> \<not> list_all isDigit s then None
      else Some (foldl (\<lambda>n c. 10 * n + digitVal c) 0 s))"

definition ParseInt :: "string \<Rightarrow> int option" where
  "ParseInt s =
     (case s of
        [] \<Rightarrow> None
      | c # rest \<Rightarrow>
         (let neg = (c = CHR ''-'');
              body = (if c = CHR ''+'' \<or> c = CHR ''-'' then rest else s)
          in case ParseUint body of
               None \<Rightarrow> None
             | Some un \<Rightarrow>
                 if \<not> neg \<and> un \<ge> 2 ^ 63 then None
                 else if neg \<and> un > 2 ^ 63 then None
                 else Some (if neg then - un else un)))"

text \<open>
  The dynamic values a \<open>map[string]interface{}\<close> of this program holds. A \<open>float64\<close> is
  kept as its bit pattern; how it prints is a parameter of the sender.
\<close>

datatype float64 = Float64 nat

datatype gvalue =
    GString string
  | GInt64 int
  | GMapInt64 "(string \<times> int) list"
  | GMapFloat64 "(string \<times> float64) list"

text \<open>
  A Go map is an association list with distinct keys; \<open>m[k] = v\<close> is \<open>AList.update\<close>,
  a lookup is \<open>map_of\<close>, and a \<open>range\<close> loop visits the entries in list order.
\<close>

type_synonym fields = "(string \<times> gvalue) list"

text \<open>The two-valued assertion \<open>fields[k].(string)\<close>.\<close>

definition asString :: "fields \<Rightarrow> string \<Rightarrow> string option" where
  "asString fs k = (case map_of fs k of Some (GString s) \<Rightarrow> Some s | _ \<Rightarrow> None)"

section \<open>aggregator.go\<close>

record AggregatorConfig =
  PreMeasurment :: string
  Measurment :: string
  Tags :: "string list"
  Aggregations :: "string list"
  Target :: string
  Timestamp :: string

record Aggregator =
  Interval :: int
  AggregatorConfigs :: AggregatorConfig
  buckets :: "(string \<times> (string \<times> int list) list) list"
  postTime :: int

definition NewAggregator :: "int \<Rightarrow> AggregatorConfig \<Rightarrow> Aggregator" where
  "NewAggregator interval aggregatorConfigs =
     \<lparr>Interval = interval, AggregatorConfigs = aggregatorConfigs, buckets = [], postTime = 0\<rparr>"

definition getSampleTime :: "int \<Rightarrow> int \<Rightarrow> panic + int" where
  "getSampleTime ts interval = div64 ts interval"

definition IsDeadline :: "Aggregator \<Rightarrow> int \<Rightarrow> panic + bool" where
  "IsDeadline p timestamp =
     (case getSampleTime timestamp (Interval p) of
        Inl e \<Rightarrow> Inl e
      | Inr nowTime \<Rightarrow> Inr (postTime p \<noteq> nowTime))"

subsection \<open>quickSort\<close>

text \<open>
  The in-place partition-exchange sort. \<open>scanDown\<close> and \<open>scanUp\<close> are the two inner
  loops, \<open>moveHole\<close> is \<open>values[p] = values[k]; p = k\<close>, \<open>partitionStep\<close> is one pass
  of the body of the outer loop and \<open>partitionLoop\<close> the loop \<open>for i <= j\<close>; it returns
  the slice and the final hole \<open>p\<close>. Every slice access is checked.
\<close>

function scanDown :: "int list \<Rightarrow> int \<Rightarrow> int \<Rightarrow> int \<Rightarrow> panic + int" where
  "scanDown values temp p j =
     (if j \<ge> p then
        (case idx values j of
           Inl e \<Rightarrow> Inl e
         | Inr v \<Rightarrow> if v \<ge> temp then scanDown values temp p (j - 1) else Inr j)
      else Inr j)"
  by pat_completeness auto
termination
  by (relation "measure (\<lambda>(vals, temp, p, j). nat (j - p + 1))") auto

function scanUp :: "int list \<Rightarrow> int \<Rightarrow> int \<Rightarrow> int \<Rightarrow> panic + int" where
  "scanUp values temp p i =
     (if i \<le> p then
        (case idx values i of
           Inl e \<Rightarrow> Inl e
         | Inr v \<Rightarrow> if v \<le> temp then scanUp values temp p (i + 1) else Inr i)
      else Inr i)"
  by pat_completeness auto
termination
  by (relation "measure (\<lambda>(vals, temp, p, i). nat (p - i + 1))") auto

declare scanDown.simps [simp del] scanUp.simps [simp del]

definition moveHole :: "int list \<Rightarrow> int \<Rightarrow> int \<Rightarrow> panic + (int list \<times> int)" where
  "moveHole values p k =
     (case idx values k of
        Inl e \<Rightarrow> Inl e
      | Inr v \<Rightarrow> (case upd values p v of
                   Inl e \<Rightarrow> Inl e
                 | Inr values' \<Rightarrow> Inr (values', k)))"

definition partitionStep ::
  "int list \<Rightarrow> int \<Rightarrow> int \<Rightarrow> int \<Rightarrow> int \<Rightarrow> panic + (int list \<times> int \<times> int \<times> int)" where
  "partitionStep values temp p i j =
     (case scanDown values temp p j of
        Inl e \<Rightarrow> Inl e
      | Inr j' \<Rightarrow>
         (case (if j' \<ge> p then moveHole values p j' else Inr (values, p)) of
            Inl e \<Rightarrow> Inl e
          | Inr (values1, p1) \<Rightarrow>
             (case scanUp values1 temp p1 i of
                Inl e \<Rightarrow> Inl e
              | Inr i' \<Rightarrow>
                 (case (if i' \<le> p1 then moveHole values1 p1 i' else Inr (values1, p1)) of
                    Inl e \<Rightarrow> Inl e
                  | Inr (values2, p2) \<Rightarrow> Inr (values2, p2, i', j')))))"

definition scanClass :: "int list \<Rightarrow> int \<Rightarrow> int \<Rightarrow> int \<Rightarrow> nat" where
  "scanClass values temp p j =
     (if j < p then 2
      else (case idx values j of
              Inl e \<Rightarrow> 0
            | Inr v \<Rightarrow> if v < temp then 1 else 0))"

lemma scanDown_le:
  "scanDown vals temp p j = Inr j' \<Longrightarrow> j' \<le> j"
proof (induction vals temp p j rule: scanDown.induct)
  case (1 vals temp p j)
  then show ?case
    by (subst (asm) (2) scanDown.simps) (fastforce split: if_splits sum.splits)
qed

lemma scanDown_stay:
  "scanDown vals temp p j = Inr j \<Longrightarrow> j < p \<or> (\<exists>v. idx vals j = Inr v \<and> v < temp)"
  by (subst (asm) scanDown.simps) (auto split: if_splits sum.splits dest: scanDown_le)

lemma scanUp_ge:
  "scanUp vals temp p i = Inr i' \<Longrightarrow> i \<le> i'"
proof (induction vals temp p i rule: scanUp.induct)
  case (1 vals temp p i)
  then show ?case
    by (subst (asm) (2) scanUp.simps) (fastforce split: if_splits sum.splits)
qed

lemma scanUp_stay:
  "scanUp vals temp p i = Inr i \<Longrightarrow> p < i \<or> (\<exists>v. idx vals i = Inr v \<and> temp < v)"
  by (subst (asm) scanUp.simps) (auto split: if_splits sum.splits dest: scanUp_ge)

lemma partitionStep_progress:
  assumes "partitionStep vals temp p i j = Inr (vals', p', i', j')" and "i \<le> j"
  shows "j' - i' < j - i \<or> (j' - i' = j - i \<and> scanClass vals' temp p' j' < scanClass vals temp p j)"
proof -
  from assms(1) obtain vals1 p1 where
    sd: "scanDown vals temp p j = Inr j'" and
    m1: "(if j' \<ge> p then moveHole vals p j' else Inr (vals, p)) = Inr (vals1, p1)" and
    su: "scanUp vals1 temp p1 i = Inr i'" and
    m2: "(if i' \<le> p1 then moveHole vals1 p1 i' else Inr (vals1, p1)) = Inr (vals', p')"
    by (auto simp: partitionStep_def split: sum.splits prod.splits)
  have le: "j' \<le> j" "i \<le> i'"
    using sd su scanDown_le scanUp_ge by auto
  show ?thesis
  proof (cases "j' = j \<and> i' = i")
    case False
    then show ?thesis using le by auto
  next
    case True
    then have j: "j' = j" and i: "i' = i" by auto
    from su i have ip1: "i \<le> p1 \<Longrightarrow> \<exists>v. idx vals1 i = Inr v \<and> temp < v"
      using scanUp_stay by fastforce
    show ?thesis
    proof (cases "j < p")
      case True
      with m1 j have "vals1 = vals" "p1 = p" by auto
      with True assms(2) m2 i have "p' = i"
        by (auto simp: moveHole_def split: sum.splits)
      with True assms(2) j i show ?thesis
        by (auto simp: scanClass_def split: sum.splits)
    next
      case False
      with sd j obtain v where v: "idx vals j = Inr v" "v < temp"
        using scanDown_stay by fastforce
      from False m1 j v have p1: "p1 = j" and len1: "length vals1 = length vals"
        by (auto simp: moveHole_def upd_def split: sum.splits if_splits)
      from p1 assms(2) ip1 obtain w where w: "idx vals1 i = Inr w" "temp < w" by auto
      from m2 i p1 assms(2) w have p': "p' = i" and v': "idx vals' j = Inr w"
        by (auto simp: moveHole_def upd_def idx_def split: sum.splits if_splits)
      from False v p' v' w assms(2) j i show ?thesis
        by (auto simp: scanClass_def)
    qed
  qed
qed

function partitionLoop :: "int list \<Rightarrow> int \<Rightarrow> int \<Rightarrow> int \<Rightarrow> int \<Rightarrow> panic + (int list \<times> int)" where
  "partitionLoop values temp p i j =
     (if i \<le> j then
        (case partitionStep values temp p i j of
           Inl e \<Rightarrow> Inl e
         | Inr (values', p', i', j') \<Rightarrow> partitionLoop values' temp p' i' j')
      else Inr (values, p))"
  by pat_completeness auto
termination
proof (relation "measures [\<lambda>(vals, temp, p, i, j). nat (j - i + 1),
                           \<lambda>(vals, temp, p, i, j). scanClass vals temp p j]", goal_cases)
  case 1
  then show ?case by simp
next
  case (2 vals temp p i j x2 vals' y p' z i' j')
  then show ?case
    using partitionStep_progress [of "vals" temp p i j vals' p' i' j'] by auto
qed

declare partitionLoop.simps [simp del]

lemma moveHole_Inr:
  "moveHole vals p k = Inr (vals', p') \<Longrightarrow> p' = k \<and> length vals' = length vals"
  by (auto simp: moveHole_def upd_def split: sum.splits if_splits)

lemma partitionStep_bounds:
  assumes "partitionStep vals temp p i j = Inr (vals', p', i', j')"
  shows "i \<le> i' \<and> j' \<le> j \<and> min p i \<le> p' \<and> p' \<le> max p j \<and> length vals' = length vals"
proof -
  from assms obtain vals1 p1 where
    sd: "scanDown vals temp p j = Inr j'" and
    m1: "(if j' \<ge> p then moveHole vals p j' else Inr (vals, p)) = Inr (vals1, p1)" and
    su: "scanUp vals1 temp p1 i = Inr i'" and
    m2: "(if i' \<le> p1 then moveHole vals1 p1 i' else Inr (vals1, p1)) = Inr (vals', p')"
    by (auto simp: partitionStep_def split: sum.splits prod.splits)
  have le: "j' \<le> j" "i \<le> i'"
    using sd su scanDown_le scanUp_ge by auto
  from m1 have p1: "(p1 = p \<or> (p1 = j' \<and> p \<le> j')) \<and> length vals1 = length vals"
    by (auto split: if_splits dest: moveHole_Inr)
  from m2 have p': "(p' = p1 \<or> (p' = i' \<and> i' \<le> p1)) \<and> length vals' = length vals1"
    by (auto split: if_splits dest: moveHole_Inr)
  from le p1 p' show ?thesis by auto
qed

lemma partitionLoop_bounds:
  "partitionLoop vals temp p i j = Inr (vals', p') \<Longrightarrow>
     min p i \<le> p' \<and> p' \<le> max p j \<and> length vals' = length vals"
proof (induction vals temp p i j rule: partitionLoop.induct)
  case (1 vals temp p i j)
  show ?case
  proof (cases "i \<le> j")
    case False
    with "1.prems" show ?thesis by (simp add: partitionLoop.simps)
  next
    case True
    with "1.prems" obtain vals1 p1 i1 j1 where
      st: "partitionStep vals temp p i j = Inr (vals1, p1, i1, j1)" and
      lp: "partitionLoop vals1 temp p1 i1 j1 = Inr (vals', p')"
      by (subst (asm) partitionLoop.simps) (auto split: sum.splits)
    from "1.IH" [OF True st refl refl refl lp] partitionStep_bounds [OF st]
    show ?thesis by auto
  qed
qed

function quickSort :: "int list \<Rightarrow> int \<Rightarrow> int \<Rightarrow> panic + int list" where
  "quickSort values left right =
     (case idx values left of
        Inl e \<Rightarrow> Inl e
      | Inr temp \<Rightarrow>
         (case partitionLoop values temp left left right of
            Inl e \<Rightarrow> Inl e
          | Inr (values1, p) \<Rightarrow>
             (case upd values1 p temp of
                Inl e \<Rightarrow> Inl e
              | Inr values2 \<Rightarrow>
                 (case (if p - left > 1 then quickSort values2 left (p - 1) else Inr values2) of
                    Inl e \<Rightarrow> Inl e
                  | Inr values3 \<Rightarrow>
                     if right - p > 1 then quickSort values3 (p + 1) right else Inr values3))))"
  by pat_completeness auto
termination
proof (relation "measure (\<lambda>(vals, left, right). nat (right - left))", goal_cases)
  case 1
  then show ?case by simp
next
  case (2 vals left right temp x2 vals1 p vals2)
  then show ?case
    using partitionLoop_bounds [of vals temp left left right vals1 p] by auto
next
  case (3 vals left right temp x2 vals1 p vals2 vals3)
  then show ?case
    using partitionLoop_bounds [of vals temp left left right vals1 p] by auto
qed

declare quickSort.simps [simp del]

subsection \<open>Record\<close>

text \<open>The loop over the configured tags that builds \<open>bucketTag\<close>.\<close>

fun tagSignature :: "fields \<Rightarrow> string list \<Rightarrow> string \<Rightarrow> string" where
  "tagSignature fs [] bucketTag = bucketTag"
| "tagSignature fs (t # ts) bucketTag =
     (case asString fs t of
        None \<Rightarrow> tagSignature fs ts bucketTag
      | Some tags_tmp \<Rightarrow> tagSignature fs ts (bucketTag @ '','' @ t @ ''='' @ tags_tmp))"

text \<open>
  \<open>p.buckets[bucketName][bucketTag] = append(p.buckets[bucketName][bucketTag], v)\<close>,
  after the inner map was made when absent.
\<close>

definition appendSample ::
  "(string \<times> (string \<times> int list) list) list \<Rightarrow> string \<Rightarrow> string \<Rightarrow> int \<Rightarrow>
   (string \<times> (string \<times> int list) list) list" where
  "appendSample bs bucketName bucketTag v =
     (let inner = (case map_of bs bucketName of None \<Rightarrow> [] | Some m \<Rightarrow> m);
          old = (case map_of inner bucketTag of None \<Rightarrow> [] | Some l \<Rightarrow> l)
      in AList.update bucketName (AList.update bucketTag (old @ [v]) inner) bs)"

text \<open>
  \<open>Record\<close> returns the sample's timestamp and the updated aggregator. The argument
  \<open>unixNow\<close> is the reading of \<open>time.Now().Unix()\<close>.
\<close>

definition Record :: "int \<Rightarrow> Aggregator \<Rightarrow> fields \<Rightarrow> int \<times> Aggregator" where
  "Record unixNow p fs =
     (case asString fs (Measurment (AggregatorConfigs p)) of
        None \<Rightarrow> (unixNow, p)
      | Some bucketName \<Rightarrow>
         (let tags = Tags (AggregatorConfigs p);
              target = Target (AggregatorConfigs p);
              timestamp = Timestamp (AggregatorConfigs p);
              now = (case asString fs timestamp of
                       None \<Rightarrow> unixNow
                     | Some timestamp_tmp \<Rightarrow>
                        (case ParseInt timestamp_tmp of None \<Rightarrow> unixNow | Some n \<Rightarrow> n))
          in if target = [] then (unixNow, p)
             else
               (let bucketTag = tagSignature fs tags []
                in case asString fs target of
                     None \<Rightarrow> (now, p)
                   | Some aggValue \<Rightarrow>
                      (case ParseInt aggValue of
                         None \<Rightarrow>
                           (now, p\<lparr>buckets := appendSample (buckets p) bucketName bucketTag 1\<rparr>)
                       | Some aggValueInt \<Rightarrow>
                           (now, p\<lparr>buckets :=
                                     appendSample (buckets p) bucketName bucketTag aggValueInt\<rparr>)))))"

subsection \<open>getAggregation and Dump\<close>

text \<open>
  The loop \<open>for _, value := range targetValue\<close> with its three running accumulators
  \<open>(sum, max, min)\<close>; \<open>sum\<close> wraps as \<open>int64\<close> addition does.
\<close>

fun accumulate :: "int list \<Rightarrow> int \<times> int \<times> int \<Rightarrow> int \<times> int \<times> int" where
  "accumulate [] acc = acc"
| "accumulate (v # vs) (sm, mx, mn) =
     accumulate vs (add64 sm v, (if v > mx then v else mx), (if v < mn then v else mn))"

text \<open>
  The percentile branch of the \<open>switch\<close>: the name is indexed at 0 (an empty name
  panics), its tail parsed, and the sorted slice read at the computed index.
\<close>

definition percentile :: "int \<Rightarrow> int list \<Rightarrow> string \<Rightarrow> panic + int option" where
  "percentile cnt targetValue name =
     (case name of
        [] \<Rightarrow> Inl IndexOutOfRange
      | c # rest \<Rightarrow>
         if c = CHR ''p'' then
           (case ParseInt rest of
              None \<Rightarrow> Inl (PanicValue name)
            | Some proportion \<Rightarrow>
               (let index = (if sub64 (quot (mul64 cnt proportion) 100) 1 < 0 then 0
                             else sub64 (quot (mul64 cnt proportion) 100) 1)
                in case idx targetValue index of
                     Inl e \<Rightarrow> Inl e
                   | Inr v \<Rightarrow> Inr (Some v)))
         else Inr None)"

text \<open>The loop over the configured aggregation names, filling \<open>aggregationResults\<close>.\<close>

fun aggregate ::
  "int \<Rightarrow> int \<Rightarrow> int \<Rightarrow> int \<Rightarrow> int \<Rightarrow> int list \<Rightarrow> string list \<Rightarrow> (string \<times> int) list \<Rightarrow>
   panic + (string \<times> int) list" where
  "aggregate cnt sm avg mn mx targetValue [] res = Inr res"
| "aggregate cnt sm avg mn mx targetValue (a # as) res =
     (if a = ''cnt'' then
        aggregate cnt sm avg mn mx targetValue as
          (AList.update ''cnt'' (int (length targetValue)) res)
      else if a = ''sum'' then
        aggregate cnt sm avg mn mx targetValue as (AList.update ''sum'' sm res)
      else if a = ''avg'' then
        aggregate cnt sm avg mn mx targetValue as (AList.update ''avg'' avg res)
      else if a = ''min'' then
        aggregate cnt sm avg mn mx targetValue as (AList.update ''min'' mn res)
      else if a = ''max'' then
        aggregate cnt sm avg mn mx targetValue as (AList.update ''max'' mx res)
      else
        (case percentile cnt targetValue a of
           Inl e \<Rightarrow> Inl e
         | Inr None \<Rightarrow> aggregate cnt sm avg mn mx targetValue as res
         | Inr (Some v) \<Rightarrow>
             aggregate cnt sm avg mn mx targetValue as (AList.update a v res)))"

text \<open>
  \<open>getAggregation\<close> sorts the slice in place first; everything after the call to
  \<open>quickSort\<close> reads the sorted slice.
\<close>

definition getAggregation :: "int list \<Rightarrow> string list \<Rightarrow> panic + (string \<times> int) list" where
  "getAggregation targetValue aggregations =
     (let cnt = int (length targetValue);
          min0 = (if cnt > 0 then targetValue ! 0 else 0);
          max0 = (if cnt > 0 then targetValue ! 0 else 0)
      in case quickSort targetValue 0 (int (length targetValue) - 1) of
           Inl e \<Rightarrow> Inl e
         | Inr targetValue' \<Rightarrow>
            (case accumulate targetValue' (0, max0, min0) of
               (sm, mx, mn) \<Rightarrow>
                 (case div64 sm cnt of
                    Inl e \<Rightarrow> Inl e
                  | Inr avg \<Rightarrow> aggregate cnt sm avg mn mx targetValue' aggregations [])))"

text \<open>The two nested \<open>range\<close> loops of \<open>Dump\<close> over \<open>p.buckets\<close>.\<close>

fun dumpTags :: "string list \<Rightarrow> string \<Rightarrow> (string \<times> int list) list \<Rightarrow> fields \<Rightarrow> panic + fields" where
  "dumpTags aggregations bucketName [] fs = Inr fs"
| "dumpTags aggregations bucketName ((bucketTag, targetValue) # rest) fs =
     (case getAggregation targetValue aggregations of
        Inl e \<Rightarrow> Inl e
      | Inr r \<Rightarrow>
          dumpTags aggregations bucketName rest
            (AList.update (bucketName @ bucketTag) (GMapInt64 r) fs))"

fun dumpBuckets ::
  "string list \<Rightarrow> (string \<times> (string \<times> int list) list) list \<Rightarrow> fields \<Rightarrow> panic + fields" where
  "dumpBuckets aggregations [] fs = Inr fs"
| "dumpBuckets aggregations ((bucketName, bucketTag_value) # rest) fs =
     (case dumpTags aggregations bucketName bucketTag_value fs of
        Inl e \<Rightarrow> Inl e
      | Inr fs' \<Rightarrow> dumpBuckets aggregations rest fs')"

definition Dump :: "Aggregator \<Rightarrow> int \<Rightarrow> panic + (fields \<times> Aggregator)" where
  "Dump p timestamp =
     (case dumpBuckets (Aggregations (AggregatorConfigs p)) (buckets p) [] of
        Inl e \<Rightarrow> Inl e
      | Inr fs \<Rightarrow>
         (case getSampleTime timestamp (Interval p) of
            Inl e \<Rightarrow> Inl e
          | Inr t \<Rightarrow>
              Inr (AList.update ''timestamp'' (GInt64 timestamp) fs,
                   p\<lparr>postTime := t, buckets := []\<rparr>)))"

section \<open>protocol.go and peck_task.go\<close>

text \<open>
  \<open>PeckTaskStat\<close> is the struct of protocol.go. \<open>PeckTaskConfig\<close> has the fields that
  peck_task.go and the registry read: \<open>Name\<close>, \<open>LogPath\<close> and the four component
  configurations; the extractor, keyword and sender configurations are opaque here.
\<close>

record PeckTaskStat =
  Name :: string
  LogPath :: string
  LinesPerSec :: int
  BytesPerSec :: int
  LinesTotal :: int
  BytesTotal :: int
  Stop :: bool

record PeckTaskConfig =
  Name :: string
  LogPath :: string
  Extractor :: string
  Keywords :: string
  Sender :: string
  AggregatorConf :: AggregatorConfig

text \<open>The two senders of the repository, as the \<open>Sender\<close> interface value a task holds.\<close>

record ElasticSearchConfig =
  Hosts :: "string list"
  Index :: string
  Type :: string
  Mapping :: "fields option"

record ElasticSearchSender =
  config :: ElasticSearchConfig
  lastIndexName :: string

record InfluxDbConfig =
  Hosts :: string
  Database :: string

record InfluxDbSender =
  config :: InfluxDbConfig
  lastIndexName :: string
  host :: string

datatype Sender = ElasticSearch ElasticSearchSender | InfluxDb InfluxDbSender

text \<open>
  A task holds its filter as the predicate \<open>Drop\<close> and its extractor as the field map
  \<open>Extract\<close> returns (\<open>Process\<close> drops the error).
\<close>

record PeckTask =
  Config :: PeckTaskConfig
  Stat :: PeckTaskStat
  filter :: "string \<Rightarrow> bool"
  extractor :: "string \<Rightarrow> fields"
  sender :: Sender
  aggregator :: Aggregator

text \<open>
  \<open>NewPeckTask\<close>. The constructors \<open>NewExtractor\<close>, \<open>NewPeckFilter\<close> and \<open>NewSender\<close> are
  parameters, as is the interval handed to \<open>NewAggregator\<close>; an \<open>error\<close> is its message.
\<close>

definition NewPeckTask ::
  "(string \<Rightarrow> string + (string \<Rightarrow> fields)) \<Rightarrow> (string \<Rightarrow> string \<Rightarrow> bool) \<Rightarrow>
   (string \<Rightarrow> string + Sender) \<Rightarrow> int \<Rightarrow>
   PeckTaskConfig \<Rightarrow> PeckTaskStat option \<Rightarrow> string + PeckTask" where
  "NewPeckTask NewExtractor NewPeckFilter NewSender interval c s =
     (let stat = (case s of
                    None \<Rightarrow> \<lparr>PeckTaskStat.Name = PeckTaskConfig.Name c, LogPath = [],
                              LinesPerSec = 0, BytesPerSec = 0, LinesTotal = 0, BytesTotal = 0,
                              Stop = True\<rparr>
                  | Some st \<Rightarrow> st)
      in case NewExtractor (Extractor c) of
           Inl err \<Rightarrow> Inl err
         | Inr extractor' \<Rightarrow>
            (let filter' = NewPeckFilter (Keywords c)
             in case NewSender (Sender c) of
                  Inl err \<Rightarrow> Inl err
                | Inr sender' \<Rightarrow>
                    Inr \<lparr>Config = c, Stat = stat, filter = filter', extractor = extractor',
                         sender = sender',
                         aggregator = NewAggregator interval (AggregatorConf c)\<rparr>))"

definition PeckTask_Start :: "PeckTask \<Rightarrow> PeckTask" where
  "PeckTask_Start p = p\<lparr>Stat := (Stat p)\<lparr>Stop := False\<rparr>\<rparr>"

definition PeckTask_Stop :: "PeckTask \<Rightarrow> PeckTask" where
  "PeckTask_Stop p = p\<lparr>Stat := (Stat p)\<lparr>Stop := True\<rparr>\<rparr>"

definition PeckTask_IsStop :: "PeckTask \<Rightarrow> bool" where
  "PeckTask_IsStop p = Stop (Stat p)"

text \<open>
  \<open>Process\<close> returns the task after the line and the field maps it hands to
  \<open>p.sender.Send\<close>, in order. \<open>IsEnable\<close> is the aggregator's switch and \<open>unixNow\<close> the clock
  \<open>Record\<close> falls back to.
\<close>

definition Process ::
  "(Aggregator \<Rightarrow> bool) \<Rightarrow> int \<Rightarrow> PeckTask \<Rightarrow> string \<Rightarrow> panic + (PeckTask \<times> fields list)" where
  "Process IsEnable unixNow p content =
     (if Stop (Stat p) then Inr (p, [])
      else if filter p content then Inr (p, [])
      else
        (let fs = extractor p content
         in if IsEnable (aggregator p) then
              (case Record unixNow (aggregator p) fs of
                 (timestamp, a1) \<Rightarrow>
                   (case IsDeadline a1 timestamp of
                      Inl e \<Rightarrow> Inl e
                    | Inr deadline \<Rightarrow>
                        if deadline then
                          (case Dump a1 timestamp of
                             Inl e \<Rightarrow> Inl e
                           | Inr (fs', a2) \<Rightarrow> Inr (p\<lparr>aggregator := a2\<rparr>, [fs']))
                        else Inr (p\<lparr>aggregator := a1\<rparr>, [])))
            else Inr (p, [fs])))"

section \<open>The senders\<close>

subsection \<open>ElasticSearchSender.Send\<close>

text \<open>
  The map \<open>data\<close> that \<open>Send\<close> builds: the literal with the two stamps, then the loop
  \<open>for k, v := range fields { data[k] = v }\<close>. \<open>hostId\<close> is the value of \<open>GetHost()\<close> and
  \<open>unixNano\<close> the reading of \<open>time.Now().UnixNano()\<close>.
\<close>

definition Send_data :: "string \<Rightarrow> int \<Rightarrow> fields \<Rightarrow> fields" where
  "Send_data hostId unixNano fs =
     fold (\<lambda>(k, v) data. AList.update k v data) fs
       [(''Host'', GString hostId), (''Timestamp'', GInt64 (quot unixNano 1000000))]"

text \<open>
  \<open>Send\<close> up to the document it posts: \<open>json.Marshal\<close> is a parameter, and its error is the
  panic of the source.
\<close>

definition ElasticSearchSender_Send ::
  "(fields \<Rightarrow> string option) \<Rightarrow> string \<Rightarrow> int \<Rightarrow> fields \<Rightarrow> panic + string" where
  "ElasticSearchSender_Send Marshal hostId unixNano fs =
     (case Marshal (Send_data hostId unixNano fs) of
        None \<Rightarrow> Inl (PanicValue ''json.Marshal'')
      | Some raw_data \<Rightarrow> Inr raw_data)"

subsection \<open>InfluxDbSender\<close>

text \<open>\<open>strconv.FormatInt(i, 10)\<close>.\<close>

definition digitChar :: "int \<Rightarrow> char" where
  "digitChar d = ''0123456789'' ! nat d"

function decimalDigits :: "int \<Rightarrow> string" where
  "decimalDigits n =
     (if n < 10 then [digitChar n]
      else decimalDigits (n div 10) @ [digitChar (n mod 10)])"
  by pat_completeness auto
termination
  by (relation "measure nat") auto

declare decimalDigits.simps [simp del]

definition FormatInt :: "int \<Rightarrow> string" where
  "FormatInt i = (if i < 0 then CHR ''-'' # decimalDigits (- i) else decimalDigits i)"

text \<open>
  The inner loop of \<open>toInfluxdbLine\<close> over one aggregation result, and the outer loop over
  the fields. \<open>v.(map[string]float64)\<close> is a single-valued assertion: any other dynamic type
  panics. \<open>FormatFloat\<close> stands for \<open>strconv.FormatFloat(result, 'f', 3, 64)\<close>.
\<close>

fun aggregationLine :: "(float64 \<Rightarrow> string) \<Rightarrow> (string \<times> float64) list \<Rightarrow> string \<Rightarrow> string" where
  "aggregationLine FormatFloat [] line = line"
| "aggregationLine FormatFloat ((aggregation, result) # rest) line =
     aggregationLine FormatFloat rest (line @ aggregation @ ''='' @ FormatFloat result @ '','')"

fun influxLines ::
  "(float64 \<Rightarrow> string) \<Rightarrow> string \<Rightarrow> int \<Rightarrow> fields \<Rightarrow> string \<Rightarrow> panic + string" where
  "influxLines FormatFloat hostName timestamp [] lines = Inr lines"
| "influxLines FormatFloat hostName timestamp ((k, v) # rest) lines =
     (if k = ''timestamp'' then influxLines FormatFloat hostName timestamp rest lines
      else
        (case v of
           GMapFloat64 aggregationResults \<Rightarrow>
             (let line = aggregationLine FormatFloat aggregationResults
                           (k @ '',host='' @ hostName @ '' '');
                  line' = butlast line @ '' '' @ FormatInt (mul64 timestamp 1000000000)
                            @ [CHR 0x0A]
              in influxLines FormatFloat hostName timestamp rest (lines @ line'))
         | _ \<Rightarrow> Inl TypeAssertion))"

definition toInfluxdbLine :: "(float64 \<Rightarrow> string) \<Rightarrow> InfluxDbSender \<Rightarrow> fields \<Rightarrow> panic + string" where
  "toInfluxdbLine FormatFloat p fs =
     (case map_of fs ''timestamp'' of
        Some (GInt64 timestamp) \<Rightarrow> influxLines FormatFloat (host p) timestamp fs []
      | _ \<Rightarrow> Inl TypeAssertion)"

text \<open>\<open>Send\<close> returns the request it posts: the URI and the line-protocol body.\<close>

definition InfluxDbSender_Send ::
  "(float64 \<Rightarrow> string) \<Rightarrow> InfluxDbSender \<Rightarrow> fields \<Rightarrow> panic + (string \<times> string)" where
  "InfluxDbSender_Send FormatFloat p fs =
     (case toInfluxdbLine FormatFloat p fs of
        Inl e \<Rightarrow> Inl e
      | Inr lines \<Rightarrow>
          Inr (''http://'' @ InfluxDbConfig.Hosts (InfluxDbSender.config p) @ ''/write?db=''
                 @ Database (InfluxDbSender.config p),
               lines))"

section \<open>The registry: Pecker\<close>

text \<open>
  An \<open>error\<close> of the registry: \<open>errors.New(msg)\<close>, and the formatted
  \<open>"Task not exist, Name: ..."\<close> of start and stop, kept by the task name.
\<close>

datatype error = Err string | TaskNotExist string

subsection \<open>LogTask\<close>

text \<open>
  Modelled from the spec: \<open>LogTask\<close> (its source file is not part of the sources at hand).
  Section 3 describes it as the multiplexer for one file path with the "set of subscribed
  PeckTasks (by name)" and a "running/stopped flag", created when the first task for a path
  is added. Of its operations, \<open>AddPeckTask\<close> attaches a task, \<open>RemovePeckTask\<close> detaches the
  task of a configuration (an error when it is not subscribed), \<open>Empty\<close> tells that it has
  zero subscribers, \<open>Close\<close> stops it, and \<open>StartPeckTask\<close> / \<open>StopPeckTask\<close> "flip the task's
  Stop flag" by the task's own \<open>Start\<close> and \<open>Stop\<close> (an error when it is not subscribed).
\<close>

record LogTask =
  LogPath :: string
  peckTasks :: "(string \<times> PeckTask) list"
  stop :: bool

definition NewLogTask :: "string \<Rightarrow> LogTask" where
  "NewLogTask path = \<lparr>LogPath = path, peckTasks = [], stop = True\<rparr>"

definition LogTask_AddPeckTask :: "LogTask \<Rightarrow> PeckTask \<Rightarrow> LogTask" where
  "LogTask_AddPeckTask lt task =
     lt\<lparr>peckTasks := AList.update (PeckTaskConfig.Name (Config task)) task (peckTasks lt)\<rparr>"

definition LogTask_RemovePeckTask :: "LogTask \<Rightarrow> PeckTaskConfig \<Rightarrow> error + LogTask" where
  "LogTask_RemovePeckTask lt c =
     (case map_of (peckTasks lt) (PeckTaskConfig.Name c) of
        None \<Rightarrow> Inl (Err ''Task not exist'')
      | Some task \<Rightarrow> Inr (lt\<lparr>peckTasks := AList.delete (PeckTaskConfig.Name c) (peckTasks lt)\<rparr>))"

definition LogTask_Empty :: "LogTask \<Rightarrow> bool" where
  "LogTask_Empty lt = (peckTasks lt = [])"

definition LogTask_Close :: "LogTask \<Rightarrow> LogTask" where
  "LogTask_Close lt = lt\<lparr>stop := True\<rparr>"

definition LogTask_IsStop :: "LogTask \<Rightarrow> bool" where
  "LogTask_IsStop lt = LogTask.stop lt"

definition LogTask_Start :: "LogTask \<Rightarrow> LogTask" where
  "LogTask_Start lt = lt\<lparr>stop := False\<rparr>"

definition LogTask_StartPeckTask :: "LogTask \<Rightarrow> PeckTaskConfig \<Rightarrow> error + LogTask" where
  "LogTask_StartPeckTask lt c =
     (case map_of (peckTasks lt) (PeckTaskConfig.Name c) of
        None \<Rightarrow> Inl (Err ''Task not exist'')
      | Some task \<Rightarrow>
          Inr (lt\<lparr>peckTasks :=
                     AList.update (PeckTaskConfig.Name c) (PeckTask_Start task) (peckTasks lt)\<rparr>))"

definition LogTask_StopPeckTask :: "LogTask \<Rightarrow> PeckTaskConfig \<Rightarrow> error + LogTask" where
  "LogTask_StopPeckTask lt c =
     (case map_of (peckTasks lt) (PeckTaskConfig.Name c) of
        None \<Rightarrow> Inl (Err ''Task not exist'')
      | Some task \<Rightarrow>
          Inr (lt\<lparr>peckTasks :=
                     AList.update (PeckTaskConfig.Name c) (PeckTask_Stop task) (peckTasks lt)\<rparr>))"

subsection \<open>The persistent store\<close>

text \<open>
  Modelled from the spec: the store \<open>DB\<close> (not part of the sources at hand). Section 6 gives
  its contract: \<open>GetStat(name)\<close>, \<open>SaveConfig(config)\<close>, \<open>SaveStat(stat)\<close>, \<open>RemoveConfig(name)\<close>,
  \<open>RemoveStat(name)\<close>, "keyed by task name", with independent retrieval and removal of config
  and stat. It is two maps; a missing stat is the error of \<open>GetStat\<close>, and failures of the
  storage medium are outside the model.
\<close>

record DB =
  configs :: "(string \<times> PeckTaskConfig) list"
  stats :: "(string \<times> PeckTaskStat) list"

definition GetStat :: "DB \<Rightarrow> string \<Rightarrow> error + PeckTaskStat" where
  "GetStat d name =
     (case map_of (stats d) name of None \<Rightarrow> Inl (Err ''Stat not exist'') | Some st \<Rightarrow> Inr st)"

definition SaveConfig :: "DB \<Rightarrow> PeckTaskConfig \<Rightarrow> DB" where
  "SaveConfig d c = d\<lparr>configs := AList.update (PeckTaskConfig.Name c) c (configs d)\<rparr>"

definition SaveStat :: "DB \<Rightarrow> PeckTaskStat \<Rightarrow> DB" where
  "SaveStat d st = d\<lparr>stats := AList.update (PeckTaskStat.Name st) st (stats d)\<rparr>"

definition RemoveConfig :: "DB \<Rightarrow> string \<Rightarrow> DB" where
  "RemoveConfig d name = d\<lparr>configs := AList.delete name (configs d)\<rparr>"

definition RemoveStat :: "DB \<Rightarrow> string \<Rightarrow> DB" where
  "RemoveStat d name = d\<lparr>stats := AList.delete name (stats d)\<rparr>"

subsection \<open>Pecker\<close>

record Pecker =
  logTasks :: "(string \<times> LogTask) list"
  nameToPath :: "(string \<times> string) list"
  db :: DB
  stop :: bool

text \<open>The registry before \<open>restorePeckTasks\<close>: both maps made empty, \<open>stop\<close> set.\<close>

definition emptyPecker :: "DB \<Rightarrow> Pecker" where
  "emptyPecker d = \<lparr>logTasks = [], nameToPath = [], db = d, stop = True\<rparr>"

text \<open>
  The method \<open>record\<close>. Its \<open>stat\<close> argument is never nil at the two call sites
  (\<open>&task.Stat\<close>).
\<close>

definition Pecker_record :: "Pecker \<Rightarrow> PeckTaskConfig \<Rightarrow> PeckTaskStat option \<Rightarrow> Pecker" where
  "Pecker_record p c st =
     (let p1 =
            (if map_of (nameToPath p) (PeckTaskConfig.Name c) = None then
               (let lts = (if map_of (logTasks p) (PeckTaskConfig.LogPath c) = None
                           then AList.update (PeckTaskConfig.LogPath c)
                                  (NewLogTask (PeckTaskConfig.LogPath c)) (logTasks p)
                           else logTasks p)
                in p\<lparr>logTasks := lts,
                     nameToPath := AList.update (PeckTaskConfig.Name c) (PeckTaskConfig.LogPath c)
                                     (nameToPath p)\<rparr>)
             else p);
          d1 = SaveConfig (db p1) c;
          d2 = (case st of None \<Rightarrow> d1 | Some s \<Rightarrow> SaveStat d1 s)
      in p1\<lparr>db := d2\<rparr>)"

text \<open>
  The registry operations return the \<open>error\<close> (\<open>None\<close> for nil) and the registry after the
  call. A map read of a missing key is Go's zero value: the empty path, and a nil
  \<open>*LogTask\<close> whose method call dereferences nil.
\<close>

definition AddPeckTask ::
  "(string \<Rightarrow> string + (string \<Rightarrow> fields)) \<Rightarrow> (string \<Rightarrow> string \<Rightarrow> bool) \<Rightarrow>
   (string \<Rightarrow> string + Sender) \<Rightarrow> int \<Rightarrow>
   Pecker \<Rightarrow> PeckTaskConfig \<Rightarrow> PeckTaskStat option \<Rightarrow> panic + (error option \<times> Pecker)" where
  "AddPeckTask NewExtractor NewPeckFilter NewSender interval p c st =
     (if map_of (nameToPath p) (PeckTaskConfig.Name c) \<noteq> None
      then Inr (Some (Err ''Peck task already exist''), p)
      else
        (case NewPeckTask NewExtractor NewPeckFilter NewSender interval c st of
           Inl err \<Rightarrow> Inr (Some (Err err), p)
         | Inr task \<Rightarrow>
            (let p1 = Pecker_record p c (Some (Stat task));
                 log_path = (case map_of (nameToPath p1) (PeckTaskConfig.Name c) of
                               None \<Rightarrow> [] | Some path \<Rightarrow> path)
             in case map_of (logTasks p1) log_path of
                  None \<Rightarrow> Inl NilDereference
                | Some log_task \<Rightarrow>
                    Inr (None,
                         p1\<lparr>logTasks := AList.update log_path (LogTask_AddPeckTask log_task task)
                                           (logTasks p1)\<rparr>))))"

definition RemovePeckTask :: "Pecker \<Rightarrow> PeckTaskConfig \<Rightarrow> panic + (error option \<times> Pecker)" where
  "RemovePeckTask p c =
     (case map_of (nameToPath p) (PeckTaskConfig.Name c) of
        None \<Rightarrow> Inr (Some (Err ''Peck task name not exist''), p)
      | Some log_path \<Rightarrow>
         (case map_of (logTasks p) log_path of
            None \<Rightarrow> Inl (PanicValue (PeckTaskConfig.Name c))
          | Some log_task \<Rightarrow>
             (let p1 = p\<lparr>db := RemoveStat (RemoveConfig (db p) (PeckTaskConfig.Name c))
                                  (PeckTaskConfig.Name c)\<rparr>
              in case LogTask_RemovePeckTask log_task c of
                   Inl err \<Rightarrow> Inr (Some err, p1)
                 | Inr log_task' \<Rightarrow>
                    (let p2 = p1\<lparr>logTasks := AList.update log_path log_task' (logTasks p1),
                                  nameToPath := AList.delete (PeckTaskConfig.Name c) (nameToPath p1)\<rparr>
                     in if LogTask_Empty log_task'
                        then Inr (None, p2\<lparr>logTasks := AList.delete log_path (logTasks p2)\<rparr>)
                        else Inr (None, p2)))))"

definition StartPeckTask :: "Pecker \<Rightarrow> PeckTaskConfig \<Rightarrow> panic + (error option \<times> Pecker)" where
  "StartPeckTask p c =
     (case map_of (nameToPath p) (PeckTaskConfig.Name c) of
        None \<Rightarrow> Inr (Some (TaskNotExist (PeckTaskConfig.Name c)), p)
      | Some log_path \<Rightarrow>
         (case map_of (logTasks p) log_path of
            None \<Rightarrow> Inl NilDereference
          | Some log_task \<Rightarrow>
             (case LogTask_StartPeckTask log_task c of
                Inl err \<Rightarrow> Inr (Some err, p)
              | Inr log_task' \<Rightarrow>
                 (let p1 = p\<lparr>logTasks := AList.update log_path log_task' (logTasks p)\<rparr>
                  in case GetStat (db p1) (PeckTaskConfig.Name c) of
                       Inl err \<Rightarrow> Inr (Some err, p1)
                     | Inr stat \<Rightarrow>
                         if \<not> Stop stat then Inr (Some (Err ''Task already started''), p1)
                         else
                           (let p2 = p1\<lparr>db := SaveStat (db p1) (stat\<lparr>Stop := False\<rparr>)\<rparr>
                            in if LogTask_IsStop log_task'
                               then Inr (None,
                                         p2\<lparr>logTasks := AList.update log_path
                                                           (LogTask_Start log_task') (logTasks p2)\<rparr>)
                               else Inr (None, p2))))))"

definition StopPeckTask :: "Pecker \<Rightarrow> PeckTaskConfig \<Rightarrow> panic + (error option \<times> Pecker)" where
  "StopPeckTask p c =
     (case map_of (nameToPath p) (PeckTaskConfig.Name c) of
        None \<Rightarrow> Inr (Some (TaskNotExist (PeckTaskConfig.Name c)), p)
      | Some log_path \<Rightarrow>
         (case map_of (logTasks p) log_path of
            None \<Rightarrow> Inl NilDereference
          | Some log_task \<Rightarrow>
             (case LogTask_StopPeckTask log_task c of
                Inl err \<Rightarrow> Inr (Some err, p)
              | Inr log_task' \<Rightarrow>
                 (let p1 = p\<lparr>logTasks := AList.update log_path log_task' (logTasks p)\<rparr>
                  in case GetStat (db p1) (PeckTaskConfig.Name c) of
                       Inl err \<Rightarrow> Inr (Some err, p1)
                     | Inr stat \<Rightarrow>
                         if Stop stat then Inr (Some (Err ''Task already stopped''), p1)
                         else Inr (None, p1\<lparr>db := SaveStat (db p1) (stat\<lparr>Stop := True\<rparr>)\<rparr>)))))"

text \<open>
  A request to the registry and the run of a list of requests, which ends at the first
  panic; an \<open>error\<close> result leaves the registry as the operation returned it.
\<close>

datatype request =
    Add PeckTaskConfig "PeckTaskStat option"
  | Remove PeckTaskConfig
  | Start PeckTaskConfig
  | Halt PeckTaskConfig

fun serve ::
  "(string \<Rightarrow> string + (string \<Rightarrow> fields)) \<Rightarrow> (string \<Rightarrow> string \<Rightarrow> bool) \<Rightarrow>
   (string \<Rightarrow> string + Sender) \<Rightarrow> int \<Rightarrow>
   Pecker \<Rightarrow> request \<Rightarrow> panic + (error option \<times> Pecker)" where
  "serve NewExtractor NewPeckFilter NewSender interval p (Add c st) =
     AddPeckTask NewExtractor NewPeckFilter NewSender interval p c st"
| "serve NewExtractor NewPeckFilter NewSender interval p (Remove c) = RemovePeckTask p c"
| "serve NewExtractor NewPeckFilter NewSender interval p (Start c) = StartPeckTask p c"
| "serve NewExtractor NewPeckFilter NewSender interval p (Halt c) = StopPeckTask p c"

fun serveAll ::
  "(string \<Rightarrow> string + (string \<Rightarrow> fields)) \<Rightarrow> (string \<Rightarrow> string \<Rightarrow> bool) \<Rightarrow>
   (string \<Rightarrow> string + Sender) \<Rightarrow> int \<Rightarrow>
   Pecker \<Rightarrow> request list \<Rightarrow> panic + Pecker" where
  "serveAll NewExtractor NewPeckFilter NewSender interval p [] = Inr p"
| "serveAll NewExtractor NewPeckFilter NewSender interval p (r # rs) =
     (case serve NewExtractor NewPeckFilter NewSender interval p r of
        Inl e \<Rightarrow> Inl e
      | Inr (err, p') \<Rightarrow> serveAll NewExtractor NewPeckFilter NewSender interval p' rs)"

section \<open>Vocabulary of the properties\<close>

text \<open>
  \<open>isInt64\<close> is the range of an \<open>int64\<close>. \<open>rankIndex\<close> is the percentile index as the
  specification words it, \<open>max(0, count*N/100 - 1)\<close> with truncating division.
  \<open>basicNames\<close> are the five fixed aggregation names; \<open>safeName n a\<close> says that name \<open>a\<close> can
  be evaluated on \<open>n\<close> samples (a fixed name, a name not starting with \<open>p\<close>, or \<open>p<N>\<close> with
  \<open>N \<le> 100\<close> and no overflow), and \<open>bucketsOK\<close> that every bucket list is non-empty and every
  configured name is safe on it. The example aggregator holds one bucket of three samples.
\<close>

definition isInt64 :: "int \<Rightarrow> bool" where
  "isInt64 x \<longleftrightarrow> - (2 ^ 63) \<le> x \<and> x < 2 ^ 63"

definition rankIndex :: "int \<Rightarrow> int \<Rightarrow> int" where
  "rankIndex cnt N = max 0 (quot (cnt * N) 100 - 1)"

definition basicNames :: "string set" where
  "basicNames = {''cnt'', ''sum'', ''avg'', ''min'', ''max''}"

definition safeName :: "nat \<Rightarrow> string \<Rightarrow> bool" where
  "safeName n a \<longleftrightarrow>
     a \<in> basicNames
     \<or> (case a of
          [] \<Rightarrow> False
        | c # rest \<Rightarrow>
            c \<noteq> CHR ''p''
            \<or> (case ParseInt rest of
                  None \<Rightarrow> False
                | Some N \<Rightarrow> N \<le> 100 \<and> isInt64 (int n * N)))"

definition bucketsOK :: "string list \<Rightarrow> (string \<times> (string \<times> int list) list) list \<Rightarrow> bool" where
  "bucketsOK aggs bs \<longleftrightarrow>
     (\<forall>(bucketName, m) \<in> set bs. \<forall>(bucketTag, tv) \<in> set m.
        tv \<noteq> [] \<and> (\<forall>a\<in>set aggs. safeName (length tv) a))"

definition exampleConfig :: AggregatorConfig where
  "exampleConfig =
     \<lparr>PreMeasurment = '''', Measurment = ''m'', Tags = [''host''],
      Aggregations = [''cnt'', ''sum'', ''avg'', ''min'', ''max'', ''p50''],
      Target = ''v'', Timestamp = ''ts''\<rparr>"

definition exampleAggregator :: Aggregator where
  "exampleAggregator =
     \<lparr>Interval = 60, AggregatorConfigs = exampleConfig,
      buckets = [(''cpu'', [('',host=a'', [7, 3, 5])])], postTime = 0\<rparr>"

text \<open>
  \<open>bucketList\<close> is the Go lookup \<open>p.buckets[bucketName][bucketTag]\<close>, empty when a key is
  missing; \<open>recordedSample\<close> and \<open>recordTime\<close> name the sample and the timestamp \<open>Record\<close>
  computes. The example task reads a line \<open>"<v> <ts>"\<close> into the fields \<open>m\<close>, \<open>host\<close>, \<open>v\<close> and
  \<open>ts\<close>; \<open>exampleTask1\<close> is that task after the line \<open>"5 30"\<close>.
\<close>

definition bucketList :: "(string \<times> (string \<times> int list) list) list \<Rightarrow> string \<Rightarrow> string \<Rightarrow> int list" where
  "bucketList bs bucketName bucketTag =
     (case map_of bs bucketName of
        None \<Rightarrow> []
      | Some m \<Rightarrow> (case map_of m bucketTag of None \<Rightarrow> [] | Some l \<Rightarrow> l))"

definition recordedSample :: "string \<Rightarrow> int" where
  "recordedSample aggValue = (case ParseInt aggValue of None \<Rightarrow> 1 | Some aggValueInt \<Rightarrow> aggValueInt)"

definition recordTime :: "int \<Rightarrow> Aggregator \<Rightarrow> fields \<Rightarrow> int" where
  "recordTime unixNow p fs =
     (case asString fs (Timestamp (AggregatorConfigs p)) of
        None \<Rightarrow> unixNow
      | Some timestamp_tmp \<Rightarrow> (case ParseInt timestamp_tmp of None \<Rightarrow> unixNow | Some n \<Rightarrow> n))"

definition exampleFields :: "string \<Rightarrow> string \<Rightarrow> fields" where
  "exampleFields v ts =
     [(''m'', GString ''cpu''), (''host'', GString ''a''), (''v'', GString v), (''ts'', GString ts)]"

definition exampleTask :: PeckTask where
  "exampleTask =
     \<lparr>Config = \<lparr>PeckTaskConfig.Name = ''t1'', LogPath = ''/var/log/a.log'', Extractor = [],
                Keywords = [], Sender = [], AggregatorConf = exampleConfig\<rparr>,
      Stat = \<lparr>PeckTaskStat.Name = ''t1'', LogPath = [], LinesPerSec = 0, BytesPerSec = 0,
              LinesTotal = 0, BytesTotal = 0, Stop = False\<rparr>,
      filter = (\<lambda>content. False),
      extractor = (\<lambda>content. exampleFields (take 1 content) (drop 2 content)),
      sender = InfluxDb \<lparr>config = \<lparr>Hosts = ''127.0.0.1:8086'', Database = ''logs''\<rparr>,
                         lastIndexName = [], host = ''10.0.0.1''\<rparr>,
      aggregator = NewAggregator 60 exampleConfig\<rparr>"


definition malformedConfig :: PeckTaskConfig where
  "malformedConfig =
     \<lparr>PeckTaskConfig.Name = ''t1'', LogPath = ''/var/log/a.log'', Extractor = [],
      Keywords = [], Sender = [],
      AggregatorConf = exampleConfig\<lparr>Aggregations := [''cnt'', ''pxx'']\<rparr>\<rparr>"

text \<open>
  \<open>isMapInt64\<close> tells the dynamic type \<open>map[string]int64\<close>; \<open>exampleInflux\<close> is a sender whose
  resolved host is \<open>10.0.0.1\<close>.
\<close>

definition isMapInt64 :: "gvalue \<Rightarrow> bool" where
  "isMapInt64 v = (case v of GMapInt64 r \<Rightarrow> True | _ \<Rightarrow> False)"

definition exampleInflux :: InfluxDbSender where
  "exampleInflux =
     \<lparr>config = \<lparr>Hosts = ''127.0.0.1:8086'', Database = ''logs''\<rparr>,
      lastIndexName = [], host = ''10.0.0.1''\<rparr>"

text \<open>
  \<open>subscribed lt name\<close>: the \<open>LogTask\<close> holds a task under that name. \<open>consistent\<close> is the
  mutual consistency of \<open>nameToPath\<close> and \<open>logTasks\<close>; \<open>synced\<close> says that every subscribed
  task has a persisted stat under its name with the same \<open>Stop\<close> flag. A request is
  \<open>wellFormed\<close> when the stat it hands to \<open>AddPeckTask\<close>, if any, bears the task's name.
\<close>

definition subscribed :: "LogTask \<Rightarrow> string \<Rightarrow> bool" where
  "subscribed lt name \<longleftrightarrow> map_of (peckTasks lt) name \<noteq> None"

definition consistent :: "Pecker \<Rightarrow> bool" where
  "consistent p \<longleftrightarrow>
     (\<forall>name path. map_of (nameToPath p) name = Some path \<longrightarrow>
        (\<exists>lt. map_of (logTasks p) path = Some lt \<and> subscribed lt name))
     \<and> (\<forall>path lt. map_of (logTasks p) path = Some lt \<longrightarrow>
          peckTasks lt \<noteq> [] \<and> (\<forall>name. subscribed lt name \<longrightarrow> map_of (nameToPath p) name = Some path))"

definition synced :: "Pecker \<Rightarrow> bool" where
  "synced p \<longleftrightarrow>
     (\<forall>path lt name task.
        map_of (logTasks p) path = Some lt \<and> map_of (peckTasks lt) name = Some task \<longrightarrow>
        (\<exists>st. map_of (stats (db p)) name = Some st \<and> Stop st = Stop (Stat task)
              \<and> PeckTaskStat.Name st = name))"

fun wellFormed :: "request \<Rightarrow> bool" where
  "wellFormed (Add c (Some st)) = (PeckTaskStat.Name st = PeckTaskConfig.Name c)"
| "wellFormed r = True"

fun isAddRemove :: "request \<Rightarrow> bool" where
  "isAddRemove (Add c st) = True"
| "isAddRemove (Remove c) = True"
| "isAddRemove r = False"

definition exampleTaskConfig :: PeckTaskConfig where
  "exampleTaskConfig = Config exampleTask"

definition exampleTaskConfig2 :: PeckTaskConfig where
  "exampleTaskConfig2 = exampleTaskConfig\<lparr>PeckTaskConfig.Name := ''t2''\<rparr>"

definition emptyDB :: DB where
  "emptyDB = \<lparr>configs = [], stats = []\<rparr>"

definition startedPecker :: Pecker where
  "startedPecker =
     \<lparr>logTasks = [(''/var/log/a.log'',
                   \<lparr>LogTask.LogPath = ''/var/log/a.log'', peckTasks = [(''t1'', exampleTask)],
                    stop = False\<rparr>)],
      nameToPath = [(''t1'', ''/var/log/a.log'')],
      db = \<lparr>configs = [(''t1'', exampleTaskConfig)], stats = [(''t1'', Stat exampleTask)]\<rparr>,
      stop = True\<rparr>"

text \<open>
  \<open>remainingPecker\<close> is the registry left by adding \<open>t1\<close> and \<open>t2\<close> on one path and removing
  \<open>t1\<close>: the path's \<open>LogTask\<close> holds \<open>exampleTask2\<close>, the task \<open>NewPeckTask\<close> builds for \<open>t2\<close>.
\<close>

definition exampleTask2 :: PeckTask where
  "exampleTask2 =
     exampleTask\<lparr>Config := exampleTaskConfig2,
                 Stat := (Stat exampleTask)\<lparr>PeckTaskStat.Name := ''t2'', Stop := True\<rparr>\<rparr>"

definition remainingPecker :: Pecker where
  "remainingPecker =
     \<lparr>logTasks = [(''/var/log/a.log'',
                   \<lparr>LogTask.LogPath = ''/var/log/a.log'', peckTasks = [(''t2'', exampleTask2)],
                    stop = True\<rparr>)],
      nameToPath = [(''t2'', ''/var/log/a.log'')],
      db = \<lparr>configs = [(''t2'', exampleTaskConfig2)], stats = [(''t2'', Stat exampleTask2)]\<rparr>,
      stop = True\<rparr>"

section \<open>Correctness of quickSort\<close>

text \<open>
  On every index range inside the slice, \<open>quickSort\<close> returns without a panic, and what it
  returns is the slice sorted ascending: the partition loop keeps the multiset of the slice
  "with the hole filled by the pivot", leaves everything left of the hole at most the pivot
  and everything right of it at least the pivot.
\<close>

lemma moveHole_eq:
  "0 \<le> p \<Longrightarrow> p < int (length vals) \<Longrightarrow> 0 \<le> k \<Longrightarrow> k < int (length vals) \<Longrightarrow>
   moveHole vals p k = Inr (vals[nat p := vals ! nat k], k)"
  by (simp add: moveHole_def idx_def upd_def)

lemma scanDown_spec:
  assumes "0 \<le> p" "j < int (length vals)"
  shows "\<exists>j'. scanDown vals temp p j = Inr j' \<and> j' \<le> j \<and> (p - 1 \<le> j \<longrightarrow> p - 1 \<le> j')
           \<and> (p \<le> j' \<longrightarrow> vals ! nat j' < temp)
           \<and> (\<forall>k. j' < k \<and> k \<le> j \<longrightarrow> temp \<le> vals ! nat k)"
  using assms
proof (induction vals temp p j rule: scanDown.induct)
  case (1 vals temp p j)
  show ?case
  proof (cases "p \<le> j \<and> temp \<le> vals ! nat j")
    case False
    with "1.prems" show ?thesis
      by (subst scanDown.simps) (auto simp: idx_def)
  next
    case True
    with "1.prems" have ix: "idx vals j = Inr (vals ! nat j)"
      by (simp add: idx_def)
    from True "1.prems" have "\<exists>j'. scanDown vals temp p (j - 1) = Inr j' \<and> j' \<le> j - 1
           \<and> (p - 1 \<le> j - 1 \<longrightarrow> p - 1 \<le> j')
           \<and> (p \<le> j' \<longrightarrow> vals ! nat j' < temp)
           \<and> (\<forall>k. j' < k \<and> k \<le> j - 1 \<longrightarrow> temp \<le> vals ! nat k)"
      using "1.IH" [OF _ ix] by simp
    then obtain j' where j': "scanDown vals temp p (j - 1) = Inr j'" "j' \<le> j - 1"
        "p - 1 \<le> j'" "p \<le> j' \<longrightarrow> vals ! nat j' < temp"
        "\<forall>k. j' < k \<and> k \<le> j - 1 \<longrightarrow> temp \<le> vals ! nat k"
      using True by auto
    have "\<forall>k. j' < k \<and> k \<le> j \<longrightarrow> temp \<le> vals ! nat k"
    proof (intro allI impI)
      fix k assume "j' < k \<and> k \<le> j"
      then have "k \<le> j - 1 \<or> k = j" by auto
      with j'(5) True \<open>j' < k \<and> k \<le> j\<close> show "temp \<le> vals ! nat k" by auto
    qed
    with j' True ix show ?thesis
      by (subst scanDown.simps) auto
  qed
qed

lemma scanUp_spec:
  assumes "0 \<le> i" "p < int (length vals)"
  shows "\<exists>i'. scanUp vals temp p i = Inr i' \<and> i \<le> i' \<and> (i \<le> p + 1 \<longrightarrow> i' \<le> p + 1)
           \<and> (i' \<le> p \<longrightarrow> temp < vals ! nat i')
           \<and> (\<forall>k. i \<le> k \<and> k < i' \<longrightarrow> vals ! nat k \<le> temp)"
  using assms
proof (induction vals temp p i rule: scanUp.induct)
  case (1 vals temp p i)
  show ?case
  proof (cases "i \<le> p \<and> vals ! nat i \<le> temp")
    case False
    with "1.prems" show ?thesis
      by (subst scanUp.simps) (auto simp: idx_def)
  next
    case True
    with "1.prems" have ix: "idx vals i = Inr (vals ! nat i)"
      by (simp add: idx_def)
    from True "1.prems" have "\<exists>i'. scanUp vals temp p (i + 1) = Inr i' \<and> i + 1 \<le> i'
           \<and> (i + 1 \<le> p + 1 \<longrightarrow> i' \<le> p + 1)
           \<and> (i' \<le> p \<longrightarrow> temp < vals ! nat i')
           \<and> (\<forall>k. i + 1 \<le> k \<and> k < i' \<longrightarrow> vals ! nat k \<le> temp)"
      using "1.IH" [OF _ ix] by simp
    then obtain i' where i': "scanUp vals temp p (i + 1) = Inr i'" "i + 1 \<le> i'"
        "i' \<le> p + 1" "i' \<le> p \<longrightarrow> temp < vals ! nat i'"
        "\<forall>k. i + 1 \<le> k \<and> k < i' \<longrightarrow> vals ! nat k \<le> temp"
      using True by auto
    have "\<forall>k. i \<le> k \<and> k < i' \<longrightarrow> vals ! nat k \<le> temp"
    proof (intro allI impI)
      fix k assume "i \<le> k \<and> k < i'"
      then have "i + 1 \<le> k \<or> k = i" by auto
      with i'(5) True \<open>i \<le> k \<and> k < i'\<close> show "vals ! nat k \<le> temp" by auto
    qed
    with i' True ix show ?thesis
      by (subst scanUp.simps) auto
  qed
qed

definition partInv :: "int \<Rightarrow> int \<Rightarrow> int \<Rightarrow> int list \<Rightarrow> int \<Rightarrow> int \<Rightarrow> int \<Rightarrow> bool" where
  "partInv left right temp vals p i j \<longleftrightarrow>
     0 \<le> left \<and> right < int (length vals) \<and> left \<le> p \<and> p \<le> right
     \<and> left \<le> i \<and> i \<le> p + 1 \<and> p - 1 \<le> j \<and> j \<le> right
     \<and> (\<forall>k. left \<le> k \<and> k < i \<and> k \<noteq> p \<longrightarrow> vals ! nat k \<le> temp)
     \<and> (\<forall>k. j < k \<and> k \<le> right \<and> k \<noteq> p \<longrightarrow> temp \<le> vals ! nat k)"

definition holeRel ::
  "int \<Rightarrow> int \<Rightarrow> int \<Rightarrow> int list \<Rightarrow> int \<Rightarrow> int list \<Rightarrow> int \<Rightarrow> bool" where
  "holeRel left right temp vals p vals' p' \<longleftrightarrow>
     length vals' = length vals
     \<and> mset (vals'[nat p' := temp]) = mset (vals[nat p := temp])
     \<and> (\<forall>m. 0 \<le> m \<and> (m < left \<or> right < m) \<longrightarrow> vals' ! nat m = vals ! nat m)
     \<and> (\<forall>m. left \<le> m \<and> m \<le> right \<and> m \<noteq> p' \<longrightarrow>
            (\<exists>m'. left \<le> m' \<and> m' \<le> right \<and> m' \<noteq> p \<and> vals' ! nat m = vals ! nat m'))"

lemma holeRel_refl: "holeRel left right temp vals p vals p"
  unfolding holeRel_def by blast

lemma holeRel_trans:
  assumes "holeRel left right temp vals p vals1 p1" "holeRel left right temp vals1 p1 vals2 p2"
  shows "holeRel left right temp vals p vals2 p2"
proof -
  have "\<forall>m. left \<le> m \<and> m \<le> right \<and> m \<noteq> p2 \<longrightarrow>
            (\<exists>m'. left \<le> m' \<and> m' \<le> right \<and> m' \<noteq> p \<and> vals2 ! nat m = vals ! nat m')"
  proof (intro allI impI)
    fix m assume "left \<le> m \<and> m \<le> right \<and> m \<noteq> p2"
    with assms(2) obtain m1 where m1: "left \<le> m1 \<and> m1 \<le> right \<and> m1 \<noteq> p1"
        "vals2 ! nat m = vals1 ! nat m1"
      unfolding holeRel_def by blast
    with assms(1) obtain m' where "left \<le> m' \<and> m' \<le> right \<and> m' \<noteq> p" "vals1 ! nat m1 = vals ! nat m'"
      unfolding holeRel_def by blast
    with m1 show "\<exists>m'. left \<le> m' \<and> m' \<le> right \<and> m' \<noteq> p \<and> vals2 ! nat m = vals ! nat m'"
      by auto
  qed
  with assms show ?thesis
    by (simp add: holeRel_def)
qed

lemma mset_hole_move:
  assumes "p < length vals" "k < length vals"
  shows "mset (vals[p := vals ! k, k := temp]) = mset (vals[p := temp])"
proof (cases "k = p")
  case True
  then show ?thesis by simp
next
  case False
  have "mset ((vals[p := temp])[p := (vals[p := temp]) ! k, k := (vals[p := temp]) ! p])
          = mset (vals[p := temp])"
    using assms by (intro mset_swap) simp_all
  with False assms show ?thesis by simp
qed

lemma holeRel_move:
  assumes "0 \<le> left" "right < int (length vals)" "left \<le> p" "p \<le> right" "left \<le> k" "k \<le> right"
  shows "holeRel left right temp vals p (vals[nat p := vals ! nat k]) k"
proof -
  have len: "nat p < length vals" "nat k < length vals"
    using assms by auto
  have m: "mset ((vals[nat p := vals ! nat k])[nat k := temp]) = mset (vals[nat p := temp])"
    using mset_hole_move [OF len] .
  have out: "\<forall>m. 0 \<le> m \<and> (m < left \<or> right < m) \<longrightarrow>
               (vals[nat p := vals ! nat k]) ! nat m = vals ! nat m"
    using assms by auto
  have src: "\<forall>m. left \<le> m \<and> m \<le> right \<and> m \<noteq> k \<longrightarrow>
            (\<exists>m'. left \<le> m' \<and> m' \<le> right \<and> m' \<noteq> p
                  \<and> (vals[nat p := vals ! nat k]) ! nat m = vals ! nat m')"
  proof (intro impI allI)
    fix m
    assume m: "left \<le> m \<and> m \<le> right \<and> m \<noteq> k"
    show "\<exists>m'. left \<le> m' \<and> m' \<le> right \<and> m' \<noteq> p
                  \<and> (vals[nat p := vals ! nat k]) ! nat m = vals ! nat m'"
    proof (cases "m = p")
      case True
      with m len assms show ?thesis
        by (intro exI [of _ k]) simp
    next
      case False
      with m assms have "nat m \<noteq> nat p" by auto
      with m False show ?thesis
        by (intro exI [of _ m]) simp
    qed
  qed
  from m out src show ?thesis
    by (simp add: holeRel_def)
qed

lemma partitionStep_inv:
  assumes inv: "partInv left right temp vals p i j"
  shows "\<exists>vals' p' i' j'. partitionStep vals temp p i j = Inr (vals', p', i', j')
           \<and> partInv left right temp vals' p' i' j'
           \<and> holeRel left right temp vals p vals' p'"
proof -
  from inv have b: "0 \<le> left" "right < int (length vals)" "left \<le> p" "p \<le> right"
      "left \<le> i" "i \<le> p + 1" "p - 1 \<le> j" "j \<le> right"
    and lo: "\<forall>k. left \<le> k \<and> k < i \<and> k \<noteq> p \<longrightarrow> vals ! nat k \<le> temp"
    and hi: "\<forall>k. j < k \<and> k \<le> right \<and> k \<noteq> p \<longrightarrow> temp \<le> vals ! nat k"
    by (auto simp: partInv_def)
  obtain j' where sd: "scanDown vals temp p j = Inr j'" and j': "j' \<le> j" "p - 1 \<le> j'"
      and jlt: "p \<le> j' \<longrightarrow> vals ! nat j' < temp"
      and jge: "\<forall>k. j' < k \<and> k \<le> j \<longrightarrow> temp \<le> vals ! nat k"
    using scanDown_spec [of p j vals temp] b by auto
  define vals1 where "vals1 = (if p \<le> j' then vals[nat p := vals ! nat j'] else vals)"
  define p1 where "p1 = (if p \<le> j' then j' else p)"
  have m1: "(if j' \<ge> p then moveHole vals p j' else Inr (vals, p)) = Inr (vals1, p1)"
    using b j' by (auto simp: vals1_def p1_def moveHole_eq)
  have len1: "length vals1 = length vals"
    by (simp add: vals1_def)
  have rel1: "holeRel left right temp vals p vals1 p1"
    using b j' by (auto simp: vals1_def p1_def holeRel_refl intro!: holeRel_move)
  have bp1: "left \<le> p1" "p1 \<le> right" "i \<le> p1 + 1" "p1 - 1 \<le> j'"
    using b j' by (auto simp: p1_def)
  have lo1: "\<forall>k. left \<le> k \<and> k < i \<and> k \<noteq> p1 \<longrightarrow> vals1 ! nat k \<le> temp"
  proof (intro allI impI)
    fix k assume k: "left \<le> k \<and> k < i \<and> k \<noteq> p1"
    show "vals1 ! nat k \<le> temp"
    proof (cases "k = p")
      case True
      with k have "p \<le> j'" by (auto simp: p1_def split: if_splits)
      with True jlt b show ?thesis by (simp add: vals1_def)
    next
      case False
      with k b have "nat k \<noteq> nat p" by auto
      with lo k False show ?thesis by (simp add: vals1_def)
    qed
  qed
  have hi1: "\<forall>k. j' < k \<and> k \<le> right \<and> k \<noteq> p1 \<longrightarrow> temp \<le> vals1 ! nat k"
  proof (intro allI impI)
    fix k assume k: "j' < k \<and> k \<le> right \<and> k \<noteq> p1"
    show "temp \<le> vals1 ! nat k"
    proof (cases "k = p")
      case True
      with k j' have "p1 = j'" "p \<le> j'" by (auto simp: p1_def)
      with k True show ?thesis by auto
    next
      case False
      with k b j' have ne: "nat k \<noteq> nat p" by auto
      have "temp \<le> vals ! nat k"
      proof (cases "k \<le> j")
        case True
        with jge k show ?thesis by auto
      next
        case False
        with hi k \<open>k \<noteq> p\<close> show ?thesis by auto
      qed
      with ne show ?thesis by (simp add: vals1_def)
    qed
  qed
  obtain i' where su: "scanUp vals1 temp p1 i = Inr i'" and i': "i \<le> i'" "i' \<le> p1 + 1"
      and igt: "i' \<le> p1 \<longrightarrow> temp < vals1 ! nat i'"
      and ile: "\<forall>k. i \<le> k \<and> k < i' \<longrightarrow> vals1 ! nat k \<le> temp"
    using scanUp_spec [of i p1 vals1 temp] b bp1 len1 by auto
  define vals2 where "vals2 = (if i' \<le> p1 then vals1[nat p1 := vals1 ! nat i'] else vals1)"
  define p2 where "p2 = (if i' \<le> p1 then i' else p1)"
  have m2: "(if i' \<le> p1 then moveHole vals1 p1 i' else Inr (vals1, p1)) = Inr (vals2, p2)"
    using b bp1 i' len1 by (auto simp: vals2_def p2_def moveHole_eq)
  have len2: "length vals2 = length vals"
    by (simp add: vals2_def len1)
  have rel2: "holeRel left right temp vals1 p1 vals2 p2"
    using b bp1 i' len1 by (auto simp: vals2_def p2_def holeRel_refl intro!: holeRel_move)
  have bp2: "left \<le> p2" "p2 \<le> right" "i' \<le> p2 + 1" "p2 - 1 \<le> j'" "left \<le> i'" "j' \<le> right"
    using b bp1 i' j' by (auto simp: p2_def)
  have lo2: "\<forall>k. left \<le> k \<and> k < i' \<and> k \<noteq> p2 \<longrightarrow> vals2 ! nat k \<le> temp"
  proof (intro allI impI)
    fix k assume k: "left \<le> k \<and> k < i' \<and> k \<noteq> p2"
    show "vals2 ! nat k \<le> temp"
    proof (cases "k = p1")
      case True
      with k i' have "p2 = p1" "\<not> i' \<le> p1" by (auto simp: p2_def)
      with k True show ?thesis by auto
    next
      case False
      with k b have ne: "nat k \<noteq> nat p1" using bp1 by auto
      have "vals1 ! nat k \<le> temp"
      proof (cases "i \<le> k")
        case True
        with ile k show ?thesis by auto
      next
        case False
        with lo1 k \<open>k \<noteq> p1\<close> show ?thesis by auto
      qed
      with ne show ?thesis by (simp add: vals2_def)
    qed
  qed
  have hi2: "\<forall>k. j' < k \<and> k \<le> right \<and> k \<noteq> p2 \<longrightarrow> temp \<le> vals2 ! nat k"
  proof (intro allI impI)
    fix k assume k: "j' < k \<and> k \<le> right \<and> k \<noteq> p2"
    show "temp \<le> vals2 ! nat k"
    proof (cases "k = p1")
      case True
      with k have "i' \<le> p1" by (auto simp: p2_def split: if_splits)
      with True igt bp1 len1 b show ?thesis by (simp add: vals2_def)
    next
      case False
      with k b bp1 j' have "nat k \<noteq> nat p1" by auto
      with hi1 k False show ?thesis by (simp add: vals2_def)
    qed
  qed
  have step: "partitionStep vals temp p i j = Inr (vals2, p2, i', j')"
    unfolding partitionStep_def using sd m1 su m2 by simp
  have inv2: "partInv left right temp vals2 p2 i' j'"
    unfolding partInv_def using b bp2 len2 lo2 hi2 by simp
  from step inv2 holeRel_trans [OF rel1 rel2] show ?thesis by blast
qed

lemma partitionLoop_spec:
  assumes "partInv left right temp vals p i j"
  shows "\<exists>vals' p'. partitionLoop vals temp p i j = Inr (vals', p')
           \<and> holeRel left right temp vals p vals' p'
           \<and> left \<le> p' \<and> p' \<le> right
           \<and> (\<forall>k. left \<le> k \<and> k < p' \<longrightarrow> vals' ! nat k \<le> temp)
           \<and> (\<forall>k. p' < k \<and> k \<le> right \<longrightarrow> temp \<le> vals' ! nat k)"
  using assms
proof (induction vals temp p i j rule: partitionLoop.induct)
  case (1 vals temp p i j)
  show ?case
  proof (cases "i \<le> j")
    case False
    have "partitionLoop vals temp p i j = Inr (vals, p)"
      using False by (simp add: partitionLoop.simps)
    moreover have "left \<le> p \<and> p \<le> right
           \<and> (\<forall>k. left \<le> k \<and> k < p \<longrightarrow> vals ! nat k \<le> temp)
           \<and> (\<forall>k. p < k \<and> k \<le> right \<longrightarrow> temp \<le> vals ! nat k)"
    proof -
      from "1.prems" have b: "left \<le> p" "p \<le> right" "i \<le> p + 1" "p - 1 \<le> j"
        and lo: "\<forall>k. left \<le> k \<and> k < i \<and> k \<noteq> p \<longrightarrow> vals ! nat k \<le> temp"
        and hi: "\<forall>k. j < k \<and> k \<le> right \<and> k \<noteq> p \<longrightarrow> temp \<le> vals ! nat k"
        by (auto simp: partInv_def)
      from b False have ij: "p \<le> i" "j \<le> p" by auto
      have "\<forall>k. left \<le> k \<and> k < p \<longrightarrow> vals ! nat k \<le> temp"
        using lo ij by auto
      moreover have "\<forall>k. p < k \<and> k \<le> right \<longrightarrow> temp \<le> vals ! nat k"
        using hi ij by auto
      ultimately show ?thesis using b by simp
    qed
    ultimately show ?thesis
      using holeRel_refl by blast
  next
    case True
    obtain vals1 p1 i1 j1 where
      step: "partitionStep vals temp p i j = Inr (vals1, p1, i1, j1)" and
      inv1: "partInv left right temp vals1 p1 i1 j1" and
      rel1: "holeRel left right temp vals p vals1 p1"
      using partitionStep_inv [OF "1.prems"] by blast
    from "1.IH" [OF True step refl refl refl inv1]
    obtain vals' p' where
      lp: "partitionLoop vals1 temp p1 i1 j1 = Inr (vals', p')" and
      rel: "holeRel left right temp vals1 p1 vals' p'" and
      post: "left \<le> p' \<and> p' \<le> right
           \<and> (\<forall>k. left \<le> k \<and> k < p' \<longrightarrow> vals' ! nat k \<le> temp)
           \<and> (\<forall>k. p' < k \<and> k \<le> right \<longrightarrow> temp \<le> vals' ! nat k)"
      by blast
    have "partitionLoop vals temp p i j = Inr (vals', p')"
      using True step lp by (subst partitionLoop.simps) simp
    with holeRel_trans [OF rel1 rel] post show ?thesis by blast
  qed
qed

definition sortedRange :: "int list \<Rightarrow> int \<Rightarrow> int \<Rightarrow> bool" where
  "sortedRange vals l r \<longleftrightarrow> (\<forall>k k'. l \<le> k \<and> k \<le> k' \<and> k' \<le> r \<longrightarrow> vals ! nat k \<le> vals ! nat k')"

definition permRel :: "int \<Rightarrow> int \<Rightarrow> int list \<Rightarrow> int list \<Rightarrow> bool" where
  "permRel l r vals vals' \<longleftrightarrow>
     length vals' = length vals \<and> mset vals' = mset vals
     \<and> (\<forall>m. 0 \<le> m \<and> (m < l \<or> r < m) \<longrightarrow> vals' ! nat m = vals ! nat m)
     \<and> (\<forall>m. l \<le> m \<and> m \<le> r \<longrightarrow> (\<exists>m'. l \<le> m' \<and> m' \<le> r \<and> vals' ! nat m = vals ! nat m'))"

lemma permRel_refl: "permRel l r vals vals"
  unfolding permRel_def by blast

lemma permRel_pres:
  assumes "permRel l r vals vals'" "\<forall>m. l \<le> m \<and> m \<le> r \<longrightarrow> P (vals ! nat m)"
  shows "\<forall>m. l \<le> m \<and> m \<le> r \<longrightarrow> P (vals' ! nat m)"
proof (intro allI impI)
  fix m assume "l \<le> m \<and> m \<le> r"
  with assms(1) obtain m' where "l \<le> m' \<and> m' \<le> r" "vals' ! nat m = vals ! nat m'"
    unfolding permRel_def by blast
  with assms(2) show "P (vals' ! nat m)" by simp
qed

lemma permRel_widen:
  assumes "permRel l r vals vals'" "0 \<le> l'" "l' \<le> l" "r \<le> r'"
  shows "permRel l' r' vals vals'"
proof -
  from assms have len: "length vals' = length vals" and ms: "mset vals' = mset vals"
    and out: "\<forall>m. 0 \<le> m \<and> (m < l \<or> r < m) \<longrightarrow> vals' ! nat m = vals ! nat m"
    and src: "\<forall>m. l \<le> m \<and> m \<le> r \<longrightarrow> (\<exists>m'. l \<le> m' \<and> m' \<le> r \<and> vals' ! nat m = vals ! nat m')"
    by (auto simp: permRel_def)
  have "\<forall>m. l' \<le> m \<and> m \<le> r' \<longrightarrow> (\<exists>m'. l' \<le> m' \<and> m' \<le> r' \<and> vals' ! nat m = vals ! nat m')"
  proof (intro allI impI)
    fix m assume m: "l' \<le> m \<and> m \<le> r'"
    show "\<exists>m'. l' \<le> m' \<and> m' \<le> r' \<and> vals' ! nat m = vals ! nat m'"
    proof (cases "l \<le> m \<and> m \<le> r")
      case True
      with src obtain m' where "l \<le> m' \<and> m' \<le> r" "vals' ! nat m = vals ! nat m'" by blast
      with assms(3,4) show ?thesis by (intro exI [of _ m']) auto
    next
      case False
      with out m assms(2) have "vals' ! nat m = vals ! nat m" by auto
      with m show ?thesis by blast
    qed
  qed
  moreover have "\<forall>m. 0 \<le> m \<and> (m < l' \<or> r' < m) \<longrightarrow> vals' ! nat m = vals ! nat m"
    using out assms(3,4) by auto
  ultimately show ?thesis
    using len ms by (simp add: permRel_def)
qed

lemma permRel_trans:
  assumes "permRel l r vals vals1" "permRel l r vals1 vals2"
  shows "permRel l r vals vals2"
proof -
  have "\<forall>m. l \<le> m \<and> m \<le> r \<longrightarrow> (\<exists>m'. l \<le> m' \<and> m' \<le> r \<and> vals2 ! nat m = vals ! nat m')"
    using permRel_pres [OF assms(2), of "\<lambda>x. \<exists>m'. l \<le> m' \<and> m' \<le> r \<and> x = vals ! nat m'"] assms(1)
    unfolding permRel_def by blast
  with assms show ?thesis
    by (simp add: permRel_def)
qed

lemma sortedRange_combine:
  assumes b: "0 \<le> left" "left \<le> p" "p \<le> right"
    and lo: "\<forall>k. left \<le> k \<and> k < p \<longrightarrow> vals2 ! nat k \<le> temp"
    and mid: "vals2 ! nat p = temp"
    and hi: "\<forall>k. p < k \<and> k \<le> right \<longrightarrow> temp \<le> vals2 ! nat k"
    and r1: "permRel left (p - 1) vals2 vals3" and s1: "sortedRange vals3 left (p - 1)"
    and r2: "permRel (p + 1) right vals3 vals4" and s2: "sortedRange vals4 (p + 1) right"
  shows "sortedRange vals4 left right"
proof -
  from r1 have out1: "\<forall>m. 0 \<le> m \<and> (m < left \<or> p - 1 < m) \<longrightarrow> vals3 ! nat m = vals2 ! nat m"
    by (auto simp: permRel_def)
  from r2 have out2: "\<forall>m. 0 \<le> m \<and> (m < p + 1 \<or> right < m) \<longrightarrow> vals4 ! nat m = vals3 ! nat m"
    by (auto simp: permRel_def)
  have lo3: "\<forall>m. left \<le> m \<and> m \<le> p - 1 \<longrightarrow> vals3 ! nat m \<le> temp"
    using permRel_pres [OF r1, of "\<lambda>x. x \<le> temp"] lo by auto
  have lo4: "\<forall>m. left \<le> m \<and> m \<le> p - 1 \<longrightarrow> vals4 ! nat m \<le> temp"
    using lo3 out2 b by auto
  have mid4: "vals4 ! nat p = temp"
    using mid out1 out2 b by auto
  have hi3: "\<forall>m. p + 1 \<le> m \<and> m \<le> right \<longrightarrow> temp \<le> vals3 ! nat m"
    using hi out1 b by auto
  have hi4: "\<forall>m. p + 1 \<le> m \<and> m \<le> right \<longrightarrow> temp \<le> vals4 ! nat m"
    using permRel_pres [OF r2, of "\<lambda>x. temp \<le> x"] hi3 by auto
  have s14: "\<forall>k k'. left \<le> k \<and> k \<le> k' \<and> k' \<le> p - 1 \<longrightarrow> vals4 ! nat k \<le> vals4 ! nat k'"
  proof (intro allI impI)
    fix k k' assume h: "left \<le> k \<and> k \<le> k' \<and> k' \<le> p - 1"
    with out2 b have "vals4 ! nat k = vals3 ! nat k" "vals4 ! nat k' = vals3 ! nat k'" by auto
    with s1 h show "vals4 ! nat k \<le> vals4 ! nat k'" by (auto simp: sortedRange_def)
  qed
  show ?thesis
    unfolding sortedRange_def
  proof (intro allI impI)
    fix k k' assume h: "left \<le> k \<and> k \<le> k' \<and> k' \<le> right"
    consider "k' < p" | "k < p" "k' = p" | "k < p" "p < k'" | "k = p" "k' = p" | "k = p" "p < k'" | "p < k"
      using h by linarith
    then show "vals4 ! nat k \<le> vals4 ! nat k'"
    proof cases
      case 1
      with s14 h show ?thesis by auto
    next
      case 2
      with lo4 mid4 h show ?thesis by auto
    next
      case 3
      with lo4 hi4 h have "vals4 ! nat k \<le> temp" "temp \<le> vals4 ! nat k'" by auto
      then show ?thesis by simp
    next
      case 4
      then show ?thesis by simp
    next
      case 5
      with hi4 mid4 h show ?thesis by auto
    next
      case 6
      with s2 h show ?thesis by (auto simp: sortedRange_def)
    qed
  qed
qed

lemma sortedRange_small: "r \<le> l \<Longrightarrow> sortedRange vals l r"
  unfolding sortedRange_def
proof (intro allI impI)
  fix k k' :: int assume "r \<le> l" "l \<le> k \<and> k \<le> k' \<and> k' \<le> r"
  then have "k = k'" by linarith
  then show "vals ! nat k \<le> vals ! nat k'" by simp
qed

lemma quickSort_spec:
  assumes "0 \<le> left" "left \<le> right" "right < int (length vals)"
  shows "\<exists>vals'. quickSort vals left right = Inr vals' \<and> permRel left right vals vals'
           \<and> sortedRange vals' left right"
  using assms
proof (induction vals left right rule: quickSort.induct)
  case (1 vals left right)
  note b = "1.prems"
  define temp where "temp = vals ! nat left"
  have ix: "idx vals left = Inr temp"
    using b by (simp add: idx_def temp_def)
  have inv0: "partInv left right temp vals left left right"
    using b by (simp add: partInv_def)
  obtain vals1 p where lp: "partitionLoop vals temp left left right = Inr (vals1, p)"
    and rel: "holeRel left right temp vals left vals1 p"
    and pb: "left \<le> p" "p \<le> right"
    and lo1: "\<forall>k. left \<le> k \<and> k < p \<longrightarrow> vals1 ! nat k \<le> temp"
    and hi1: "\<forall>k. p < k \<and> k \<le> right \<longrightarrow> temp \<le> vals1 ! nat k"
    using partitionLoop_spec [OF inv0] by blast
  from rel have len1: "length vals1 = length vals"
    and ms1: "mset (vals1[nat p := temp]) = mset (vals[nat left := temp])"
    and out1: "\<forall>m. 0 \<le> m \<and> (m < left \<or> right < m) \<longrightarrow> vals1 ! nat m = vals ! nat m"
    and src1: "\<forall>m. left \<le> m \<and> m \<le> right \<and> m \<noteq> p \<longrightarrow>
            (\<exists>m'. left \<le> m' \<and> m' \<le> right \<and> m' \<noteq> left \<and> vals1 ! nat m = vals ! nat m')"
    unfolding holeRel_def by simp_all
  define vals2 where "vals2 = vals1[nat p := temp]"
  have up: "upd vals1 p temp = Inr vals2"
    using b pb len1 by (simp add: upd_def vals2_def)
  have len2: "length vals2 = length vals"
    by (simp add: vals2_def len1)
  have pn: "nat p < length vals1"
    using b pb len1 by auto
  have mid2: "vals2 ! nat p = temp"
    using pn by (simp add: vals2_def)
  have ne2: "vals2 ! nat m = vals1 ! nat m" if "0 \<le> m" "m \<noteq> p" for m
  proof -
    from that b pb have "nat m \<noteq> nat p" by auto
    then show ?thesis by (simp add: vals2_def)
  qed
  have lo2: "\<forall>k. left \<le> k \<and> k < p \<longrightarrow> vals2 ! nat k \<le> temp"
    using lo1 ne2 b by auto
  have hi2: "\<forall>k. p < k \<and> k \<le> right \<longrightarrow> temp \<le> vals2 ! nat k"
    using hi1 ne2 b pb by auto
  have r02: "permRel left right vals vals2"
  proof -
    have "vals[nat left := temp] = vals"
      by (simp add: temp_def)
    with ms1 have "mset vals2 = mset vals"
      by (simp add: vals2_def)
    moreover have "\<forall>m. 0 \<le> m \<and> (m < left \<or> right < m) \<longrightarrow> vals2 ! nat m = vals ! nat m"
      using out1 ne2 pb by auto
    moreover have "\<forall>m. left \<le> m \<and> m \<le> right \<longrightarrow> (\<exists>m'. left \<le> m' \<and> m' \<le> right \<and> vals2 ! nat m = vals ! nat m')"
    proof (intro allI impI)
      fix m assume m: "left \<le> m \<and> m \<le> right"
      show "\<exists>m'. left \<le> m' \<and> m' \<le> right \<and> vals2 ! nat m = vals ! nat m'"
      proof (cases "m = p")
        case True
        with mid2 b show ?thesis
          by (intro exI [of _ left]) (simp add: temp_def)
      next
        case False
        with src1 m obtain m' where "left \<le> m' \<and> m' \<le> right" "vals1 ! nat m = vals ! nat m'"
          by blast
        with ne2 [of m] m False b show ?thesis by auto
      qed
    qed
    ultimately show ?thesis
      using len2 by (simp add: permRel_def)
  qed
  define res1 where "res1 = (if p - left > 1 then quickSort vals2 left (p - 1) else Inr vals2)"
  have "\<exists>vals3. res1 = Inr vals3 \<and> permRel left (p - 1) vals2 vals3 \<and> sortedRange vals3 left (p - 1)"
  proof (cases "p - left > 1")
    case True
    have "0 \<le> left" "left \<le> p - 1" "p - 1 < int (length vals2)"
      using True b pb len2 by auto
    from "1.IH"(1) [OF ix lp refl up True this] True show ?thesis
      by (simp add: res1_def)
  next
    case False
    then have "sortedRange vals2 left (p - 1)"
      by (intro sortedRange_small) simp
    with False permRel_refl [of left "p - 1" vals2] show ?thesis
      by (simp add: res1_def)
  qed
  then obtain vals3 where c1: "res1 = Inr vals3" and r1: "permRel left (p - 1) vals2 vals3"
    and s1: "sortedRange vals3 left (p - 1)" by blast
  from r1 have len3: "length vals3 = length vals"
    by (simp add: permRel_def len2)
  define res2 where "res2 = (if right - p > 1 then quickSort vals3 (p + 1) right else Inr vals3)"
  have "\<exists>vals4. res2 = Inr vals4 \<and> permRel (p + 1) right vals3 vals4 \<and> sortedRange vals4 (p + 1) right"
  proof (cases "right - p > 1")
    case True
    have "0 \<le> p + 1" "p + 1 \<le> right" "right < int (length vals3)"
      using True b pb len3 by auto
    from "1.IH"(2) [OF ix lp refl up c1 [unfolded res1_def] True this] True show ?thesis
      by (simp add: res2_def)
  next
    case False
    then have "sortedRange vals3 (p + 1) right"
      by (intro sortedRange_small) simp
    with False permRel_refl [of "p + 1" right vals3] show ?thesis
      by (simp add: res2_def)
  qed
  then obtain vals4 where c2: "res2 = Inr vals4" and r2: "permRel (p + 1) right vals3 vals4"
    and s2: "sortedRange vals4 (p + 1) right" by blast
  have "quickSort vals left right = Inr vals4"
    using ix lp up c1 c2 unfolding res1_def res2_def
    by (subst quickSort.simps) simp
  moreover have "permRel left right vals vals4"
  proof -
    have "permRel left right vals2 vals3"
      using permRel_widen [OF r1, of left right] b pb by simp
    moreover have "permRel left right vals3 vals4"
      using permRel_widen [OF r2, of left right] b pb by simp
    ultimately show ?thesis
      using r02 permRel_trans by blast
  qed
  moreover have "sortedRange vals4 left right"
    using sortedRange_combine [OF b(1) pb lo2 mid2 hi2 r1 s1 r2 s2] .
  ultimately show ?case by blast
qed

lemma quickSort_sort:
  assumes "xs \<noteq> []"
  shows "quickSort xs 0 (int (length xs) - 1) = Inr (sort xs)"
proof -
  from assms have "0 \<le> int (length xs) - 1" "int (length xs) - 1 < int (length xs)"
    by (auto simp: Suc_le_eq)
  from quickSort_spec [of 0 "int (length xs) - 1" xs] this obtain ys where
    q: "quickSort xs 0 (int (length xs) - 1) = Inr ys" and
    r: "permRel 0 (int (length xs) - 1) xs ys" and
    s: "sortedRange ys 0 (int (length xs) - 1)" by auto
  from r have len: "length ys = length xs" and ms: "mset ys = mset xs"
    by (auto simp: permRel_def)
  have "sorted ys"
    unfolding sorted_iff_nth_mono
  proof (intro allI impI)
    fix i j assume ij: "i \<le> j" "j < length ys"
    from s have "0 \<le> int i \<and> int i \<le> int j \<and> int j \<le> int (length xs) - 1
                   \<longrightarrow> ys ! nat (int i) \<le> ys ! nat (int j)"
      unfolding sortedRange_def by blast
    with ij len show "ys ! i \<le> ys ! j" by simp
  qed
  with ms have "sort xs = ys"
    by (intro properties_for_sort)
  with q show ?thesis by simp
qed

section \<open>Properties of the aggregator\<close>

lemma wrap64_id: "isInt64 x \<Longrightarrow> wrap64 x = x"
  by (simp add: wrap64_def isInt64_def)

lemma quot_nonneg: "0 \<le> a \<Longrightarrow> 0 < b \<Longrightarrow> quot a b = a div b"
  by (cases "a = 0") (simp_all add: quot_def)

lemma quot_neg: "a < 0 \<Longrightarrow> 0 < b \<Longrightarrow> quot a b = - ((- a) div b)"
  by (simp add: quot_def)

lemma quot_100_bounds:
  assumes "isInt64 a"
  shows "isInt64 (quot a 100)" "isInt64 (quot a 100 - 1)"
proof -
  have "- (2 ^ 63) < quot a 100 - 1 \<and> quot a 100 < 2 ^ 63"
  proof (cases "0 \<le> a")
    case True
    then have "quot a 100 = a div 100" by (simp add: quot_nonneg)
    moreover have "0 \<le> a div 100" "a div 100 \<le> a" using True by auto
    ultimately show ?thesis using assms by (auto simp: isInt64_def)
  next
    case False
    then have q: "quot a 100 = - ((- a) div 100)" by (simp add: quot_neg)
    have "(- a) div 100 \<le> 92233720368547758" using assms False
      by (auto simp: isInt64_def)
    with q show ?thesis using False by auto
  qed
  then show "isInt64 (quot a 100)" "isInt64 (quot a 100 - 1)"
    by (auto simp: isInt64_def)
qed

lemma rankIndex_bounds:
  assumes "0 < cnt" "N \<le> 100"
  shows "0 \<le> rankIndex cnt N \<and> rankIndex cnt N < cnt"
proof (cases "0 \<le> cnt * N")
  case True
  have "cnt * N \<le> cnt * 100" using assms by simp
  then have "(cnt * N) div 100 \<le> cnt" by simp
  with True assms show ?thesis
    by (simp add: rankIndex_def quot_nonneg)
next
  case False
  then have "quot (cnt * N) 100 \<le> 0"
    by (simp add: quot_neg)
  with assms show ?thesis
    by (simp add: rankIndex_def)
qed

lemma percentile_in_range:
  assumes "0 < length tv" "ParseInt rest = Some N" "N \<le> 100" "isInt64 (int (length tv) * N)"
  shows "percentile (int (length tv)) tv (CHR ''p'' # rest)
           = Inr (Some (tv ! nat (rankIndex (int (length tv)) N)))"
proof -
  let ?cnt = "int (length tv)"
  have m: "mul64 ?cnt N = ?cnt * N"
    using assms(4) by (simp add: mul64_def wrap64_id)
  have s: "sub64 (quot (?cnt * N) 100) 1 = quot (?cnt * N) 100 - 1"
    using quot_100_bounds(2) [OF assms(4)] by (simp add: sub64_def wrap64_id)
  from rankIndex_bounds [of ?cnt N] assms
  have ix: "idx tv (rankIndex ?cnt N) = Inr (tv ! nat (rankIndex ?cnt N))"
    by (simp add: idx_def)
  show ?thesis
  proof (cases "quot (?cnt * N) 100 - 1 < 0")
    case True
    then have "rankIndex ?cnt N = 0" by (simp add: rankIndex_def)
    with ix True assms(2) m s show ?thesis
      by (simp add: percentile_def)
  next
    case False
    then have "rankIndex ?cnt N = quot (?cnt * N) 100 - 1" by (simp add: rankIndex_def)
    with ix False assms(2) m s show ?thesis
      by (simp add: percentile_def)
  qed
qed

lemma aggregate_keeps:
  assumes "aggregate cnt sm avg mn mx tv aggs res = Inr res'" "map_of res a = Some v"
    "percentile cnt tv a = Inr (Some v)" "a \<notin> basicNames"
  shows "map_of res' a = Some v"
  using assms
proof (induction aggs arbitrary: res)
  case Nil
  then show ?case by simp
next
  case (Cons x xs)
  from Cons.prems(4) have ne: "a \<noteq> ''cnt''" "a \<noteq> ''sum''" "a \<noteq> ''avg''" "a \<noteq> ''min''" "a \<noteq> ''max''"
    by (auto simp: basicNames_def)
  from Cons.prems(1) obtain res1 where
    step: "aggregate cnt sm avg mn mx tv xs res1 = Inr res'" and
    r1: "res1 = AList.update ''cnt'' (int (length tv)) res \<or> res1 = AList.update ''sum'' sm res
         \<or> res1 = AList.update ''avg'' avg res \<or> res1 = AList.update ''min'' mn res
         \<or> res1 = AList.update ''max'' mx res \<or> res1 = res
         \<or> (\<exists>w. percentile cnt tv x = Inr (Some w) \<and> res1 = AList.update x w res)"
    by (auto split: if_splits sum.splits option.splits)
  from r1 Cons.prems(2,3) ne have "map_of res1 a = Some v"
    by (auto simp: update_conv')
  from Cons.IH [OF step this Cons.prems(3,4)] show ?case .
qed

lemma aggregate_reports:
  assumes "aggregate cnt sm avg mn mx tv aggs res = Inr res'" "a \<in> set aggs"
    "percentile cnt tv a = Inr (Some v)" "a \<notin> basicNames"
  shows "map_of res' a = Some v"
  using assms
proof (induction aggs arbitrary: res)
  case Nil
  then show ?case by simp
next
  case (Cons x xs)
  show ?case
  proof (cases "x = a")
    case True
    from Cons.prems(4) have ne: "a \<noteq> ''cnt''" "a \<noteq> ''sum''" "a \<noteq> ''avg''" "a \<noteq> ''min''" "a \<noteq> ''max''"
      by (auto simp: basicNames_def)
    from Cons.prems(1,3) True ne
    have "aggregate cnt sm avg mn mx tv xs (AList.update a v res) = Inr res'"
      by simp
    from aggregate_keeps [OF this _ Cons.prems(3,4)] show ?thesis
      by (simp add: update_conv')
  next
    case False
    with Cons.prems(2) have mem: "a \<in> set xs" by simp
    from Cons.prems(1) obtain res1 where
      step: "aggregate cnt sm avg mn mx tv xs res1 = Inr res'"
      by (auto split: if_splits sum.splits option.splits)
    from Cons.IH [OF step mem Cons.prems(3,4)] show ?thesis .
  qed
qed

lemma accumulate_cases: "\<exists>sm mx mn. accumulate vs acc = (sm, mx, mn)"
  by (cases "accumulate vs acc") auto

lemma getAggregation_nonempty:
  assumes "tv \<noteq> []"
  shows "getAggregation tv aggs =
           (case accumulate (sort tv) (0, tv ! 0, tv ! 0) of
              (sm, mx, mn) \<Rightarrow>
                aggregate (int (length tv)) sm (wrap64 (quot sm (int (length tv)))) mn mx
                  (sort tv) aggs [])"
  using assms quickSort_sort [OF assms]
  by (simp add: getAggregation_def div64_def Let_def split: prod.splits)

lemma percentile_safe:
  assumes "safeName (length tv) a" "a \<notin> basicNames" "0 < length tv"
  shows "\<exists>r. percentile (int (length tv)) tv a = Inr r"
proof (cases a)
  case Nil
  with assms show ?thesis by (simp add: safeName_def)
next
  case (Cons c rest)
  show ?thesis
  proof (cases "c = CHR ''p''")
    case False
    with Cons show ?thesis by (simp add: percentile_def)
  next
    case True
    with Cons assms obtain N where "ParseInt rest = Some N" "N \<le> 100" "isInt64 (int (length tv) * N)"
      by (auto simp: safeName_def split: option.splits)
    from percentile_in_range [OF assms(3) this] Cons True show ?thesis by simp
  qed
qed

lemma aggregate_total:
  assumes "\<forall>a\<in>set aggs. safeName (length tv) a" "0 < length tv"
  shows "\<exists>res'. aggregate (int (length tv)) sm avg mn mx tv aggs res = Inr res'"
  using assms
proof (induction aggs arbitrary: res)
  case Nil
  then show ?case by simp
next
  case (Cons x xs)
  show ?case
  proof (cases "x \<in> basicNames")
    case True
    with Cons show ?thesis
      by (auto simp: basicNames_def)
  next
    case False
    with Cons.prems percentile_safe [of tv x] obtain r where
      "percentile (int (length tv)) tv x = Inr r" by auto
    with False Cons show ?thesis
      by (cases r) (auto simp: basicNames_def)
  qed
qed

lemma getAggregation_total:
  assumes "tv \<noteq> []" "\<forall>a\<in>set aggs. safeName (length tv) a"
  shows "\<exists>res. getAggregation tv aggs = Inr res"
proof -
  obtain sm mx mn where acc: "accumulate (sort tv) (0, tv ! 0, tv ! 0) = (sm, mx, mn)"
    using accumulate_cases by blast
  have "\<exists>res'. aggregate (int (length (sort tv))) sm (wrap64 (quot sm (int (length tv)))) mn mx
                  (sort tv) aggs [] = Inr res'"
    using assms by (intro aggregate_total) auto
  with acc assms(1) show ?thesis
    by (simp add: getAggregation_nonempty)
qed

lemma dumpTags_total:
  assumes "\<forall>(bucketTag, tv) \<in> set m. tv \<noteq> [] \<and> (\<forall>a\<in>set aggs. safeName (length tv) a)"
  shows "\<exists>fs'. dumpTags aggs bucketName m fs = Inr fs'"
  using assms
proof (induction m arbitrary: fs)
  case Nil
  then show ?case by simp
next
  case (Cons e m)
  obtain bucketTag tv where e: "e = (bucketTag, tv)" by (cases e)
  with Cons.prems obtain r where "getAggregation tv aggs = Inr r"
    using getAggregation_total [of tv aggs] by auto
  with e Cons show ?case by simp
qed

lemma dumpBuckets_total:
  assumes "bucketsOK aggs bs"
  shows "\<exists>fs'. dumpBuckets aggs bs fs = Inr fs'"
  using assms
proof (induction bs arbitrary: fs)
  case Nil
  then show ?case by simp
next
  case (Cons e bs)
  obtain bucketName m where e: "e = (bucketName, m)" by (cases e)
  with Cons.prems obtain fs1 where "dumpTags aggs bucketName m fs = Inr fs1"
    using dumpTags_total [of m aggs bucketName fs] by (auto simp: bucketsOK_def)
  moreover from Cons.prems have "bucketsOK aggs bs"
    by (simp add: bucketsOK_def)
  ultimately show ?case
    using e Cons.IH by simp
qed

lemma Dump_result:
  assumes "Dump p timestamp = Inr (fs, p')"
  shows "Interval p \<noteq> 0 \<and> p' = p\<lparr>postTime := wrap64 (quot timestamp (Interval p)), buckets := []\<rparr>
         \<and> map_of fs ''timestamp'' = Some (GInt64 timestamp)"
  using assms
  by (auto simp: Dump_def getSampleTime_def div64_def update_conv' split: sum.splits if_splits)

lemma Dump_total:
  assumes "Interval p \<noteq> 0" "bucketsOK (Aggregations (AggregatorConfigs p)) (buckets p)"
  shows "\<exists>fs. Dump p timestamp
           = Inr (fs, p\<lparr>postTime := wrap64 (quot timestamp (Interval p)), buckets := []\<rparr>)"
proof -
  from dumpBuckets_total [OF assms(2)] obtain fs' where
    "dumpBuckets (Aggregations (AggregatorConfigs p)) (buckets p) [] = Inr fs'" by blast
  with assms(1) show ?thesis
    by (simp add: Dump_def getSampleTime_def div64_def)
qed


lemma int_div_le_dividend: "0 \<le> (a::int) \<Longrightarrow> a div b \<le> a"
  by (cases "a = 0") (simp_all add: int_div_le_self)

lemma quot_bounds:
  assumes "isInt64 a" "0 < b"
  shows "isInt64 (quot a b)"
proof (cases "0 \<le> a")
  case True
  then have "quot a b = a div b" using assms by (simp add: quot_nonneg)
  moreover have "0 \<le> a div b" using True assms by (simp add: pos_imp_zdiv_nonneg_iff)
  moreover have "a div b \<le> a" using True by (simp add: int_div_le_dividend)
  ultimately show ?thesis using assms by (auto simp: isInt64_def)
next
  case False
  then have q: "quot a b = - ((- a) div b)" using assms by (simp add: quot_neg)
  have "0 \<le> (- a) div b" using False assms by (simp add: pos_imp_zdiv_nonneg_iff)
  moreover have "(- a) div b \<le> - a" using False by (simp add: int_div_le_dividend)
  ultimately show ?thesis using q assms by (auto simp: isInt64_def)
qed

lemma getSampleTime_pos:
  "0 < interval \<Longrightarrow> isInt64 ts \<Longrightarrow> getSampleTime ts interval = Inr (quot ts interval)"
  by (simp add: getSampleTime_def div64_def wrap64_id quot_bounds)

text \<open>
  C1. Claim: with \<open>Interval I > 0\<close>, \<open>IsDeadline(t)\<close> is true iff \<open>floor(t/I)\<close> differs from
  \<open>postTime\<close>, and after \<open>Dump(t)\<close> \<open>postTime\<close> is \<open>floor(t/I)\<close> and the buckets are cleared; in
  particular, with \<open>Interval = 60\<close> and \<open>postTime = 0\<close>, \<open>IsDeadline\<close> is false on \<open>[0, 59]\<close>, true
  at \<open>60\<close>, and \<open>Dump(60)\<close> sets \<open>postTime\<close> to \<open>1\<close> and empties the bucket map.

  \<open>getSampleTime\<close> is Go's \<open>ts / interval\<close>, which truncates towards zero: the bucket index is
  \<open>quot t I\<close>, equal to \<open>floor(t/I)\<close> for \<open>t \<ge> 0\<close>. As amended: \<open>IsDeadline(t)\<close> is true iff the
  truncated quotient differs from \<open>postTime\<close>; the quotient is the floor for \<open>t \<ge> 0\<close>; whenever
  \<open>Dump(t)\<close> returns, \<open>postTime\<close> is that quotient and the buckets are empty, and it does
  return when every bucket list is non-empty and every aggregation name is usable
  (\<open>bucketsOK\<close>); the instance for \<open>Interval = 60\<close>, \<open>postTime = 0\<close> holds as claimed.
\<close>

theorem IsDeadline_Dump_bucket_index:
  assumes "0 < Interval p" and "isInt64 timestamp"
  shows "IsDeadline p timestamp = Inr (postTime p \<noteq> quot timestamp (Interval p))
     \<and> (0 \<le> timestamp \<longrightarrow> quot timestamp (Interval p) = timestamp div Interval p)
     \<and> (\<forall>fs p'. Dump p timestamp = Inr (fs, p') \<longrightarrow>
           postTime p' = quot timestamp (Interval p) \<and> buckets p' = [])
     \<and> (bucketsOK (Aggregations (AggregatorConfigs p)) (buckets p) \<longrightarrow>
           (\<exists>fs. Dump p timestamp =
                   Inr (fs, p\<lparr>postTime := quot timestamp (Interval p), buckets := []\<rparr>)))
     \<and> (Interval p = 60 \<and> postTime p = 0 \<longrightarrow>
           (\<forall>t. 0 \<le> t \<and> t \<le> 59 \<longrightarrow> IsDeadline p t = Inr False)
           \<and> IsDeadline p 60 = Inr True
           \<and> (\<forall>fs p'. Dump p 60 = Inr (fs, p') \<longrightarrow> postTime p' = 1 \<and> buckets p' = []))"
proof -
  have w: "wrap64 (quot timestamp (Interval p)) = quot timestamp (Interval p)"
    using assms by (simp add: wrap64_id quot_bounds)
  have c1: "IsDeadline p timestamp = Inr (postTime p \<noteq> quot timestamp (Interval p))"
    using assms by (simp add: IsDeadline_def getSampleTime_pos)
  have c2: "0 \<le> timestamp \<longrightarrow> quot timestamp (Interval p) = timestamp div Interval p"
    using assms by (simp add: quot_nonneg)
  have c3: "\<forall>fs p'. Dump p timestamp = Inr (fs, p') \<longrightarrow>
           postTime p' = quot timestamp (Interval p) \<and> buckets p' = []"
    using Dump_result [of p timestamp] w by auto
  have c4: "bucketsOK (Aggregations (AggregatorConfigs p)) (buckets p) \<longrightarrow>
           (\<exists>fs. Dump p timestamp =
                   Inr (fs, p\<lparr>postTime := quot timestamp (Interval p), buckets := []\<rparr>))"
    using Dump_total [of p timestamp] assms w by auto
  have c5: "(\<forall>t. 0 \<le> t \<and> t \<le> 59 \<longrightarrow> IsDeadline p t = Inr False)
           \<and> IsDeadline p 60 = Inr True
           \<and> (\<forall>fs p'. Dump p 60 = Inr (fs, p') \<longrightarrow> postTime p' = 1 \<and> buckets p' = [])"
    if h: "Interval p = 60 \<and> postTime p = 0"
  proof -
    have "IsDeadline p t = Inr False" if "0 \<le> t \<and> t \<le> 59" for t
    proof -
      from that have "isInt64 t" by (simp add: isInt64_def)
      moreover from that have "quot t 60 = 0" by (simp add: quot_nonneg)
      ultimately show ?thesis using h
        by (simp add: IsDeadline_def getSampleTime_pos)
    qed
    moreover have "IsDeadline p 60 = Inr True"
      using h by (simp add: IsDeadline_def getSampleTime_pos isInt64_def quot_nonneg)
    moreover have "\<forall>fs p'. Dump p 60 = Inr (fs, p') \<longrightarrow> postTime p' = 1 \<and> buckets p' = []"
      using Dump_result [of p 60] h by (auto simp: wrap64_def quot_def)
    ultimately show ?thesis by blast
  qed
  from c1 c2 c3 c4 c5 show ?thesis by blast
qed


theorem IsDeadline_Dump_bucket_index_witness:
  "0 < Interval exampleAggregator \<and> isInt64 60
   \<and> IsDeadline exampleAggregator 59 = Inr False
   \<and> IsDeadline exampleAggregator 60 = Inr True
   \<and> Dump exampleAggregator 60 =
       Inr ([(''cpu,host=a'', GMapInt64 [(''cnt'', 3), (''sum'', 15), (''avg'', 5), (''min'', 3),
                                         (''max'', 7), (''p50'', 3)]),
             (''timestamp'', GInt64 60)],
            exampleAggregator\<lparr>postTime := 1, buckets := []\<rparr>)"
proof -
  have h: "0 < Interval exampleAggregator" "isInt64 60"
    by (simp_all add: exampleAggregator_def isInt64_def)
  have d: "Dump exampleAggregator 60 =
       Inr ([(''cpu,host=a'', GMapInt64 [(''cnt'', 3), (''sum'', 15), (''avg'', 5), (''min'', 3),
                                         (''max'', 7), (''p50'', 3)]),
             (''timestamp'', GInt64 60)],
            exampleAggregator\<lparr>postTime := 1, buckets := []\<rparr>)"
    by code_simp
  have i: "IsDeadline exampleAggregator 59 = Inr False"
    by code_simp
  from IsDeadline_Dump_bucket_index [OF h] d i h show ?thesis
    by (simp add: exampleAggregator_def quot_def)
qed

text \<open>
  The claim as stated fails for a negative timestamp, which \<open>Record\<close> returns when the
  timestamp field of a line parses to one: at \<open>t = -1\<close>, \<open>Interval = 60\<close>, \<open>postTime = 0\<close> the
  floor is \<open>-1\<close>, which differs from \<open>postTime\<close>, yet \<open>-1 / 60\<close> is \<open>0\<close> in Go and
  \<open>IsDeadline\<close> returns false.
\<close>

theorem IsDeadline_floor_counterexample:
  "IsDeadline exampleAggregator (- 1) = Inr False
   \<and> (- 1) div Interval exampleAggregator \<noteq> postTime exampleAggregator"
  by (simp add: IsDeadline_def getSampleTime_def div64_def quot_def wrap64_def exampleAggregator_def)

text \<open>
  C3. Claim: for every aggregation name \<open>p<N>\<close> with integer \<open>N\<close> and every non-empty sample
  list, \<open>Dump\<close> reports the value at index \<open>max(0, count*N/100 - 1)\<close> of the samples sorted
  ascending; for \<open>[1..10]\<close> and \<open>p50\<close> the index is 4 and the value 5.

  As amended: this holds for every \<open>N \<le> 100\<close> whose product \<open>count * N\<close> fits \<open>int64\<close>. Then the
  index \<open>rankIndex count N\<close> lies inside the slice, \<open>getAggregation\<close> on the single name
  returns exactly that entry, in any list of names on which \<open>getAggregation\<close> returns the
  entry of \<open>p<N>\<close> is that value, and \<open>Dump\<close> of a one-bucket aggregator reports it under
  \<open>bucketName + bucketTag\<close>.
\<close>

theorem getAggregation_percentile_nearest_rank:
  assumes "targetValue \<noteq> []" and "ParseInt rest = Some N" and "N \<le> 100"
    and "isInt64 (int (length targetValue) * N)"
  shows "0 \<le> rankIndex (int (length targetValue)) N
     \<and> rankIndex (int (length targetValue)) N < int (length targetValue)
     \<and> getAggregation targetValue [CHR ''p'' # rest] =
         Inr [(CHR ''p'' # rest, sort targetValue ! nat (rankIndex (int (length targetValue)) N))]
     \<and> (\<forall>aggregations res.
           CHR ''p'' # rest \<in> set aggregations \<and> getAggregation targetValue aggregations = Inr res \<longrightarrow>
           map_of res (CHR ''p'' # rest) =
             Some (sort targetValue ! nat (rankIndex (int (length targetValue)) N)))
     \<and> (\<forall>p timestamp bucketName bucketTag.
           buckets p = [(bucketName, [(bucketTag, targetValue)])]
           \<and> Aggregations (AggregatorConfigs p) = [CHR ''p'' # rest] \<and> Interval p \<noteq> 0 \<longrightarrow>
           (\<exists>p'. Dump p timestamp =
              Inr (AList.update ''timestamp'' (GInt64 timestamp)
                     [(bucketName @ bucketTag,
                       GMapInt64 [(CHR ''p'' # rest,
                                   sort targetValue ! nat (rankIndex (int (length targetValue)) N))])],
                   p')))"
proof -
  let ?cnt = "int (length targetValue)"
  let ?name = "CHR ''p'' # rest"
  let ?v = "sort targetValue ! nat (rankIndex ?cnt N)"
  have pos: "0 < length (sort targetValue)" "length (sort targetValue) = length targetValue"
    using assms(1) by simp_all
  have nb: "?name \<notin> basicNames"
    by (simp add: basicNames_def)
  have ne: "?name \<noteq> ''cnt''" "?name \<noteq> ''sum''" "?name \<noteq> ''avg''" "?name \<noteq> ''min''" "?name \<noteq> ''max''"
    by simp_all
  have pc: "percentile ?cnt (sort targetValue) ?name = Inr (Some ?v)"
    using percentile_in_range [of "sort targetValue" rest N] assms pos by simp
  have b: "0 \<le> rankIndex ?cnt N \<and> rankIndex ?cnt N < ?cnt"
    using rankIndex_bounds [of ?cnt N] assms by simp
  have single: "getAggregation targetValue [?name] = Inr [(?name, ?v)]"
  proof -
    obtain sm mx mn where acc: "accumulate (sort targetValue) (0, targetValue ! 0, targetValue ! 0) = (sm, mx, mn)"
      using accumulate_cases by blast
    have "aggregate ?cnt sm (wrap64 (quot sm ?cnt)) mn mx (sort targetValue) [?name] []
            = Inr [(?name, ?v)]"
      using pc ne by simp
    with acc assms(1) show ?thesis
      by (simp add: getAggregation_nonempty)
  qed
  have many: "map_of res ?name = Some ?v"
    if h: "?name \<in> set aggregations \<and> getAggregation targetValue aggregations = Inr res"
    for aggregations res
  proof -
    obtain sm mx mn where acc: "accumulate (sort targetValue) (0, targetValue ! 0, targetValue ! 0) = (sm, mx, mn)"
      using accumulate_cases by blast
    with h assms(1) have "aggregate ?cnt sm (wrap64 (quot sm ?cnt)) mn mx (sort targetValue) aggregations []
            = Inr res"
      by (simp add: getAggregation_nonempty)
    from aggregate_reports [OF this _ pc nb] h show ?thesis by simp
  qed
  have dump: "\<exists>p'. Dump p timestamp =
              Inr (AList.update ''timestamp'' (GInt64 timestamp)
                     [(bucketName @ bucketTag, GMapInt64 [(?name, ?v)])], p')"
    if "buckets p = [(bucketName, [(bucketTag, targetValue)])]
           \<and> Aggregations (AggregatorConfigs p) = [?name] \<and> Interval p \<noteq> 0"
    for p timestamp bucketName bucketTag
    using that single by (simp add: Dump_def getSampleTime_def div64_def)
  from b single many dump show ?thesis by blast
qed

theorem getAggregation_percentile_nearest_rank_witness:
  "[1, 2, 3, 4, 5, 6, 7, 8, 9, 10] \<noteq> ([] :: int list) \<and> ParseInt ''50'' = Some 50
   \<and> rankIndex 10 50 = 4
   \<and> getAggregation [1, 2, 3, 4, 5, 6, 7, 8, 9, 10] [''p50''] = Inr [(''p50'', 5)]
   \<and> getAggregation [10, 9, 8, 7, 6, 5, 4, 3, 2, 1] [''p50''] = Inr [(''p50'', 5)]"
proof -
  have p: "ParseInt ''50'' = Some 50"
    by code_simp
  have r: "rankIndex 10 50 = 4"
    by (simp add: rankIndex_def quot_def)
  have s: "sort [1, 2, 3, 4, 5, 6, 7, 8, 9, 10 :: int] = [1, 2, 3, 4, 5, 6, 7, 8, 9, 10]"
      "sort [10, 9, 8, 7, 6, 5, 4, 3, 2, 1 :: int] = [1, 2, 3, 4, 5, 6, 7, 8, 9, 10]"
    by simp_all
  have i: "isInt64 (int (length [1, 2, 3, 4, 5, 6, 7, 8, 9, 10 :: int]) * 50)"
      "isInt64 (int (length [10, 9, 8, 7, 6, 5, 4, 3, 2, 1 :: int]) * 50)"
    by (simp_all add: isInt64_def)
  from getAggregation_percentile_nearest_rank [OF _ p _ i(1)]
       getAggregation_percentile_nearest_rank [OF _ p _ i(2)] p r s
  show ?thesis by simp
qed

text \<open>
  For \<open>N > 100\<close> the index is past the end of the slice and the read \<open>targetValue[index]\<close>
  panics: one sample and \<open>p200\<close> give index \<open>1\<close> in a slice of length \<open>1\<close>.
\<close>

theorem getAggregation_percentile_counterexample:
  "ParseInt ''200'' = Some 200
   \<and> \<not> rankIndex (int (length [1 :: int])) 200 < int (length [1 :: int])
   \<and> getAggregation [1] [''p200''] = Inl IndexOutOfRange
   \<and> Dump (exampleAggregator\<lparr>AggregatorConfigs := exampleConfig\<lparr>Aggregations := [''p200'']\<rparr>,
                              buckets := [(''cpu'', [([], [1])])]\<rparr>) 60 = Inl IndexOutOfRange"
proof -
  have "ParseInt ''200'' = Some 200" by code_simp
  moreover have "\<not> rankIndex (int (length [1 :: int])) 200 < int (length [1 :: int])"
    by (simp add: rankIndex_def quot_def)
  moreover have g: "getAggregation [1] [''p200''] = Inl IndexOutOfRange" by code_simp
  moreover have "Dump (exampleAggregator\<lparr>AggregatorConfigs := exampleConfig\<lparr>Aggregations := [''p200'']\<rparr>,
                              buckets := [(''cpu'', [([], [1])])]\<rparr>) 60 = Inl IndexOutOfRange"
    using g by (simp add: Dump_def exampleConfig_def)
  ultimately show ?thesis by blast
qed

section \<open>Properties of Record and Process\<close>

lemma bucketList_appendSample:
  "bucketList (appendSample bs bucketName bucketTag v) n t =
     (if n = bucketName \<and> t = bucketTag then bucketList bs bucketName bucketTag @ [v]
      else bucketList bs n t)"
  by (auto simp: bucketList_def appendSample_def update_conv' Let_def split: option.splits)

lemma Record_present:
  assumes "asString fs (Measurment (AggregatorConfigs p)) = Some bucketName"
    and "asString fs (Target (AggregatorConfigs p)) = Some aggValue"
    and "Target (AggregatorConfigs p) \<noteq> []"
  shows "Record unixNow p fs =
           (recordTime unixNow p fs,
            p\<lparr>buckets := appendSample (buckets p) bucketName
                            (tagSignature fs (Tags (AggregatorConfigs p)) [])
                            (recordedSample aggValue)\<rparr>)"
  using assms
  by (simp add: Record_def recordTime_def recordedSample_def Let_def split: option.splits)

text \<open>
  C6. Claim: for every \<open>Record(fields)\<close> call where the measurement and target fields are
  present strings, a target value that does not parse as an integer appends the literal
  sample \<open>1\<close> to the corresponding bucket list, and one that parses appends the parsed
  integer.

  As amended: this holds whenever the configured target name is not the empty string.
  Then \<open>Record\<close> returns, the list of the sample's bucket (\<open>bucketList\<close>, the Go lookup
  \<open>p.buckets[bucketName][bucketTag]\<close>) grows by exactly that value at its end, every other
  bucket list is unchanged, and nothing but the buckets changes.
\<close>

theorem Record_appends_sample:
  assumes "asString fs (Measurment (AggregatorConfigs p)) = Some bucketName"
    and "asString fs (Target (AggregatorConfigs p)) = Some aggValue"
    and "Target (AggregatorConfigs p) \<noteq> []"
  shows "\<exists>ts p'. Record unixNow p fs = (ts, p')
     \<and> bucketList (buckets p') bucketName (tagSignature fs (Tags (AggregatorConfigs p)) [])
         = bucketList (buckets p) bucketName (tagSignature fs (Tags (AggregatorConfigs p)) [])
           @ [case ParseInt aggValue of None \<Rightarrow> 1 | Some aggValueInt \<Rightarrow> aggValueInt]
     \<and> (\<forall>n t. (n, t) \<noteq> (bucketName, tagSignature fs (Tags (AggregatorConfigs p)) []) \<longrightarrow>
           bucketList (buckets p') n t = bucketList (buckets p) n t)
     \<and> p' = p\<lparr>buckets := buckets p'\<rparr>"
  using Record_present [OF assms]
  by (auto simp: bucketList_appendSample recordedSample_def)


theorem Record_appends_sample_witness:
  "asString (exampleFields ''abc'' ''30'') (Measurment (AggregatorConfigs exampleAggregator)) = Some ''cpu''
   \<and> asString (exampleFields ''abc'' ''30'') (Target (AggregatorConfigs exampleAggregator)) = Some ''abc''
   \<and> Target (AggregatorConfigs exampleAggregator) \<noteq> []
   \<and> ParseInt ''abc'' = None
   \<and> Record 1000 exampleAggregator (exampleFields ''abc'' ''30'')
       = (30, exampleAggregator\<lparr>buckets := [(''cpu'', [('',host=a'', [7, 3, 5, 1])])]\<rparr>)
   \<and> Record 1000 exampleAggregator (exampleFields ''42'' ''30'')
       = (30, exampleAggregator\<lparr>buckets := [(''cpu'', [('',host=a'', [7, 3, 5, 42])])]\<rparr>)"
proof -
  have h: "asString (exampleFields ''abc'' ''30'') (Measurment (AggregatorConfigs exampleAggregator)) = Some ''cpu''"
     "asString (exampleFields ''abc'' ''30'') (Target (AggregatorConfigs exampleAggregator)) = Some ''abc''"
     "Target (AggregatorConfigs exampleAggregator) \<noteq> []"
    by (simp_all add: asString_def exampleFields_def exampleAggregator_def exampleConfig_def)
  have p: "ParseInt ''abc'' = None"
    by code_simp
  have r1: "Record 1000 exampleAggregator (exampleFields ''abc'' ''30'')
       = (30, exampleAggregator\<lparr>buckets := [(''cpu'', [('',host=a'', [7, 3, 5, 1])])]\<rparr>)"
    by code_simp
  have r2: "Record 1000 exampleAggregator (exampleFields ''42'' ''30'')
       = (30, exampleAggregator\<lparr>buckets := [(''cpu'', [('',host=a'', [7, 3, 5, 42])])]\<rparr>)"
    by code_simp
  from Record_appends_sample [OF h, of 1000] h p r1 r2 show ?thesis
    by simp
qed

text \<open>
  With the target name \<open>""\<close> the guard \<open>if target == ""\<close> returns before anything is appended,
  also when \<open>fields[""]\<close> is a string: the sample is skipped.
\<close>

theorem Record_empty_target_counterexample:
  "asString [(''m'', GString ''cpu''), ([], GString ''5'')]
      (Measurment (AggregatorConfigs (exampleAggregator\<lparr>AggregatorConfigs := exampleConfig\<lparr>Target := []\<rparr>\<rparr>)))
     = Some ''cpu''
   \<and> asString [(''m'', GString ''cpu''), ([], GString ''5'')]
      (Target (AggregatorConfigs (exampleAggregator\<lparr>AggregatorConfigs := exampleConfig\<lparr>Target := []\<rparr>\<rparr>)))
     = Some ''5''
   \<and> Record 1000 (exampleAggregator\<lparr>AggregatorConfigs := exampleConfig\<lparr>Target := []\<rparr>\<rparr>)
        [(''m'', GString ''cpu''), ([], GString ''5'')]
     = (1000, exampleAggregator\<lparr>AggregatorConfigs := exampleConfig\<lparr>Target := []\<rparr>\<rparr>)"
  by (simp add: Record_def asString_def exampleAggregator_def exampleConfig_def)





lemma percentile_malformed:
  "ParseInt rest = None \<Longrightarrow>
   percentile cnt tv (CHR ''p'' # rest) = Inl (PanicValue (CHR ''p'' # rest))"
  by (simp add: percentile_def)

lemma aggregate_malformed:
  assumes "ParseInt rest = None" "CHR ''p'' # rest \<in> set aggs"
  shows "\<exists>e. aggregate cnt sm avg mn mx tv aggs res = Inl e"
  using assms(2)
proof (induction aggs arbitrary: res)
  case Nil
  then show ?case by simp
next
  case (Cons x xs)
  show ?case
  proof (cases "x = CHR ''p'' # rest")
    case True
    then show ?thesis
      using percentile_malformed [OF assms(1)] by simp
  next
    case False
    with Cons.prems have "CHR ''p'' # rest \<in> set xs" by simp
    from Cons.IH [OF this] show ?thesis
      by (auto split: sum.splits option.splits)
  qed
qed

lemma getAggregation_malformed:
  assumes "ParseInt rest = None" "CHR ''p'' # rest \<in> set aggs"
  shows "\<exists>e. getAggregation tv aggs = Inl e"
proof (cases "tv = []")
  case True
  then show ?thesis
    by (simp add: getAggregation_def quickSort.simps idx_def)
next
  case False
  obtain sm mx mn where acc: "accumulate (sort tv) (0, tv ! 0, tv ! 0) = (sm, mx, mn)"
    using accumulate_cases by blast
  with False aggregate_malformed [OF assms] show ?thesis
    by (simp add: getAggregation_nonempty)
qed

lemma dumpTags_malformed:
  assumes "ParseInt rest = None" "CHR ''p'' # rest \<in> set aggs" "m \<noteq> []"
  shows "\<exists>e. dumpTags aggs bucketName m fs = Inl e"
proof -
  from assms(3) obtain bucketTag tv m' where m: "m = (bucketTag, tv) # m'"
    by (cases m) auto
  from getAggregation_malformed [OF assms(1,2), of tv] m show ?thesis by auto
qed

lemma dumpBuckets_malformed:
  assumes "ParseInt rest = None" "CHR ''p'' # rest \<in> set aggs" "\<exists>(bucketName, m) \<in> set bs. m \<noteq> []"
  shows "\<exists>e. dumpBuckets aggs bs fs = Inl e"
  using assms(3)
proof (induction bs arbitrary: fs)
  case Nil
  then show ?case by simp
next
  case (Cons b bs)
  obtain bucketName m where b: "b = (bucketName, m)" by (cases b)
  show ?case
  proof (cases "m = []")
    case True
    with Cons.prems b have "\<exists>(bucketName, m) \<in> set bs. m \<noteq> []" by auto
    from Cons.IH [OF this] b True show ?thesis by simp
  next
    case False
    from dumpTags_malformed [OF assms(1,2) False, of bucketName fs] b show ?thesis by auto
  qed
qed

text \<open>
  C8. Claim: a task configuration whose aggregation list holds a malformed \<open>p<N>\<close> name
  fails in \<open>NewPeckTask\<close> with a configuration error, and the name never causes a failure
  later in \<open>Dump\<close> or \<open>getAggregation\<close>.

  \<open>NewPeckTask\<close> never looks at the aggregation names. As amended: with such a name in the
  list, construction succeeds exactly when the extractor and the sender construct, the new
  aggregator carries the list unchanged, and the name fails at run time: \<open>getAggregation\<close>
  panics on every sample list (with the name as panic value when it is the only name), and
  so does every \<open>Dump\<close> of an aggregator holding a bucket.
\<close>

theorem NewPeckTask_malformed_percentile:
  assumes "ParseInt rest = None"
    and "CHR ''p'' # rest \<in> set (Aggregations (AggregatorConf c))"
  shows "((\<exists>t. NewPeckTask NewExtractor NewPeckFilter NewSender interval c s = Inr t)
           \<longleftrightarrow> (\<exists>e. NewExtractor (Extractor c) = Inr e) \<and> (\<exists>sd. NewSender (Sender c) = Inr sd))
     \<and> (\<forall>t. NewPeckTask NewExtractor NewPeckFilter NewSender interval c s = Inr t \<longrightarrow>
           AggregatorConfigs (aggregator t) = AggregatorConf c \<and> buckets (aggregator t) = [])
     \<and> (\<forall>tv. tv \<noteq> [] \<longrightarrow>
           getAggregation tv [CHR ''p'' # rest] = Inl (PanicValue (CHR ''p'' # rest)))
     \<and> (\<forall>tv. \<exists>e. getAggregation tv (Aggregations (AggregatorConf c)) = Inl e)
     \<and> (\<forall>a timestamp.
           AggregatorConfigs a = AggregatorConf c \<and> (\<exists>(bucketName, m) \<in> set (buckets a). m \<noteq> []) \<longrightarrow>
           (\<exists>e. Dump a timestamp = Inl e))"
proof -
  have c1: "(\<exists>t. NewPeckTask NewExtractor NewPeckFilter NewSender interval c s = Inr t)
           \<longleftrightarrow> (\<exists>e. NewExtractor (Extractor c) = Inr e) \<and> (\<exists>sd. NewSender (Sender c) = Inr sd)"
    by (auto simp: NewPeckTask_def Let_def split: sum.splits)
  have c2: "\<forall>t. NewPeckTask NewExtractor NewPeckFilter NewSender interval c s = Inr t \<longrightarrow>
           AggregatorConfigs (aggregator t) = AggregatorConf c \<and> buckets (aggregator t) = []"
    by (auto simp: NewPeckTask_def NewAggregator_def Let_def split: sum.splits)
  have c3: "getAggregation tv [CHR ''p'' # rest] = Inl (PanicValue (CHR ''p'' # rest))"
    if "tv \<noteq> []" for tv
  proof -
    obtain sm mx mn where acc: "accumulate (sort tv) (0, tv ! 0, tv ! 0) = (sm, mx, mn)"
      using accumulate_cases by blast
    with that percentile_malformed [OF assms(1)] show ?thesis
      by (simp add: getAggregation_nonempty)
  qed
  have c4: "\<forall>tv. \<exists>e. getAggregation tv (Aggregations (AggregatorConf c)) = Inl e"
    using getAggregation_malformed [OF assms] by blast
  have c5: "\<exists>e. Dump a timestamp = Inl e"
    if "AggregatorConfigs a = AggregatorConf c \<and> (\<exists>(bucketName, m) \<in> set (buckets a). m \<noteq> [])"
    for a timestamp
  proof -
    from that dumpBuckets_malformed [OF assms, of "buckets a" "[]"]
    obtain e where "dumpBuckets (Aggregations (AggregatorConfigs a)) (buckets a) [] = Inl e"
      by auto
    then show ?thesis by (simp add: Dump_def)
  qed
  from c1 c2 c3 c4 c5 show ?thesis by blast
qed

theorem NewPeckTask_malformed_percentile_witness:
  "ParseInt ''xx'' = None \<and> ''pxx'' \<in> set (Aggregations (AggregatorConf malformedConfig))
   \<and> (\<exists>t. NewPeckTask (\<lambda>c. Inr (extractor exampleTask)) (\<lambda>k content. False)
             (\<lambda>c. Inr (sender exampleTask)) 60 malformedConfig None = Inr t)
   \<and> getAggregation [7] [''pxx''] = Inl (PanicValue ''pxx'')
   \<and> (\<exists>e. getAggregation [7] [''cnt'', ''pxx''] = Inl e)"
proof -
  have h: "ParseInt ''xx'' = None" "CHR ''p'' # ''xx'' \<in> set (Aggregations (AggregatorConf malformedConfig))"
    by (simp_all add: ParseInt_def ParseUint_def isDigit_def malformedConfig_def)
  from NewPeckTask_malformed_percentile [OF h, of "\<lambda>c. Inr (extractor exampleTask)"
      "\<lambda>k content. False" "\<lambda>c. Inr (sender exampleTask)" 60 None] h
  show ?thesis
    by (simp add: malformedConfig_def)
qed

text \<open>
  The configuration with aggregations \<open>["cnt", "pxx"]\<close> constructs; the first line that
  closes a window then panics with the value \<open>"pxx"\<close>.
\<close>

theorem NewPeckTask_malformed_counterexample:
  "ParseInt ''xx'' = None
   \<and> NewPeckTask (\<lambda>c. Inr (extractor exampleTask)) (\<lambda>k content. False)
        (\<lambda>c. Inr (sender exampleTask)) 60 malformedConfig None
      = Inr (exampleTask\<lparr>Config := malformedConfig,
                         Stat := (Stat exampleTask)\<lparr>Stop := True\<rparr>,
                         aggregator := NewAggregator 60 (AggregatorConf malformedConfig)\<rparr>)
   \<and> Process (\<lambda>a. True) 1000
        (exampleTask\<lparr>Config := malformedConfig,
                     aggregator := NewAggregator 60 (AggregatorConf malformedConfig)\<rparr>) ''7 60''
      = Inl (PanicValue ''pxx'')"
proof -
  have p: "ParseInt ''xx'' = None"
    by (simp add: ParseInt_def ParseUint_def isDigit_def)
  have n: "NewPeckTask (\<lambda>c. Inr (extractor exampleTask)) (\<lambda>k content. False)
        (\<lambda>c. Inr (sender exampleTask)) 60 malformedConfig None
      = Inr (exampleTask\<lparr>Config := malformedConfig,
                         Stat := (Stat exampleTask)\<lparr>Stop := True\<rparr>,
                         aggregator := NewAggregator 60 (AggregatorConf malformedConfig)\<rparr>)"
    by (simp add: NewPeckTask_def exampleTask_def malformedConfig_def)
  let ?a1 = "(NewAggregator 60 (AggregatorConf malformedConfig))\<lparr>buckets := [(''cpu'', [('',host=a'', [7])])]\<rparr>"
  have r: "Record 1000 (NewAggregator 60 (AggregatorConf malformedConfig))
             (exampleFields (take 1 ''7 60'') (drop 2 ''7 60'')) = (60, ?a1)"
    unfolding malformedConfig_def by code_simp
  have d: "IsDeadline ?a1 60 = Inr True"
    unfolding malformedConfig_def by code_simp
  have u: "Dump ?a1 60 = Inl (PanicValue ''pxx'')"
    unfolding malformedConfig_def by code_simp
  have "Process (\<lambda>a. True) 1000
        (exampleTask\<lparr>Config := malformedConfig,
                     aggregator := NewAggregator 60 (AggregatorConf malformedConfig)\<rparr>) ''7 60''
      = Inl (PanicValue ''pxx'')"
    using r d u by (simp add: Process_def exampleTask_def)
  with p n show ?thesis by blast
qed

section \<open>Properties of the senders\<close>

lemma map_add_upd_swap:
  "n k = None \<Longrightarrow> m(k \<mapsto> v) ++ n = m ++ n(k \<mapsto> v)"
  by (rule ext) (auto simp: map_add_def split: option.splits)

lemma map_of_fold_update:
  assumes "distinct (map fst fs)"
  shows "map_of (fold (\<lambda>(k, v) data. AList.update k v data) fs init) = map_of init ++ map_of fs"
  using assms
proof (induction fs arbitrary: init)
  case Nil
  then show ?case by simp
next
  case (Cons e fs)
  obtain k v where e: "e = (k, v)" by (cases e)
  with Cons.prems have nk: "map_of fs k = None" and d: "distinct (map fst fs)"
    by (auto simp: map_of_eq_None_iff)
  have "fold (\<lambda>(k, v) data. AList.update k v data) (e # fs) init
          = fold (\<lambda>(k, v) data. AList.update k v data) fs (AList.update k v init)"
    using e by simp
  then have "map_of (fold (\<lambda>(k, v) data. AList.update k v data) (e # fs) init)
          = map_of (AList.update k v init) ++ map_of fs"
    using Cons.IH [OF d] by simp
  also have "\<dots> = (map_of init)(k \<mapsto> v) ++ map_of fs"
    by (simp only: update_conv')
  also have "\<dots> = map_of init ++ (map_of fs)(k \<mapsto> v)"
    using nk by (rule map_add_upd_swap)
  also have "\<dots> = map_of init ++ map_of (e # fs)"
    using e by simp
  finally show ?case .
qed

lemma distinct_fold_update:
  "distinct (map fst init) \<Longrightarrow>
   distinct (map fst (fold (\<lambda>(k, v) data. AList.update k v data) fs init))"
  by (induction fs arbitrary: init) (auto simp: distinct_update)

text \<open>
  C10. In \<open>ElasticSearchSender.Send\<close> the document starts as the two generated stamps
  \<open>Host\<close> and \<open>Timestamp\<close> (epoch milliseconds) and every input field is then stored into
  it: for a field map (distinct keys) the document is the stamps overridden by the fields,
  so it holds every input pair, an input key \<open>Host\<close> or \<open>Timestamp\<close> replaces the generated
  stamp, and a stamp survives only when the input lacks its key. Its keys are the two stamp
  names and the input keys, and it is what \<open>json.Marshal\<close> receives.
\<close>

theorem Send_data_merges_fields:
  assumes "distinct (map fst fs)"
  shows "map_of (Send_data hostId unixNano fs)
           = [''Host'' \<mapsto> GString hostId, ''Timestamp'' \<mapsto> GInt64 (quot unixNano 1000000)]
               ++ map_of fs
     \<and> (\<forall>k v. map_of fs k = Some v \<longrightarrow> map_of (Send_data hostId unixNano fs) k = Some v)
     \<and> (map_of fs ''Host'' = None \<longrightarrow>
           map_of (Send_data hostId unixNano fs) ''Host'' = Some (GString hostId))
     \<and> (map_of fs ''Timestamp'' = None \<longrightarrow>
           map_of (Send_data hostId unixNano fs) ''Timestamp''
             = Some (GInt64 (quot unixNano 1000000)))
     \<and> dom (map_of (Send_data hostId unixNano fs)) = {''Host'', ''Timestamp''} \<union> fst ` set fs
     \<and> distinct (map fst (Send_data hostId unixNano fs))
     \<and> ElasticSearchSender_Send Marshal hostId unixNano fs
         = (case Marshal (Send_data hostId unixNano fs) of
              None \<Rightarrow> Inl (PanicValue ''json.Marshal'')
            | Some raw_data \<Rightarrow> Inr raw_data)"
proof -
  let ?stamps = "[(''Host'', GString hostId), (''Timestamp'', GInt64 (quot unixNano 1000000))]"
  have m: "map_of (Send_data hostId unixNano fs) = map_of ?stamps ++ map_of fs"
    unfolding Send_data_def using map_of_fold_update [OF assms] by blast
  have c1: "map_of (Send_data hostId unixNano fs)
           = [''Host'' \<mapsto> GString hostId, ''Timestamp'' \<mapsto> GInt64 (quot unixNano 1000000)]
               ++ map_of fs"
    using m by (simp add: fun_upd_twist)
  have c2: "\<forall>k v. map_of fs k = Some v \<longrightarrow> map_of (Send_data hostId unixNano fs) k = Some v"
    using m by (simp add: map_add_Some_iff)
  have c3: "map_of fs ''Host'' = None \<longrightarrow>
           map_of (Send_data hostId unixNano fs) ''Host'' = Some (GString hostId)"
    using m by (simp add: map_add_def)
  have c4: "map_of fs ''Timestamp'' = None \<longrightarrow>
           map_of (Send_data hostId unixNano fs) ''Timestamp''
             = Some (GInt64 (quot unixNano 1000000))"
    using m by (simp add: map_add_def)
  have c5: "dom (map_of (Send_data hostId unixNano fs)) = {''Host'', ''Timestamp''} \<union> fst ` set fs"
    using m by (auto simp: dom_map_of_conv_image_fst)
  have c6: "distinct (map fst (Send_data hostId unixNano fs))"
    unfolding Send_data_def by (intro distinct_fold_update) simp
  have c7: "ElasticSearchSender_Send Marshal hostId unixNano fs
         = (case Marshal (Send_data hostId unixNano fs) of
              None \<Rightarrow> Inl (PanicValue ''json.Marshal'')
            | Some raw_data \<Rightarrow> Inr raw_data)"
    by (simp add: ElasticSearchSender_Send_def)
  from c1 c2 c3 c4 c5 c6 c7 show ?thesis by blast
qed


theorem Send_data_merges_fields_witness:
  "distinct (map fst [(''msg'', GString ''x''), (''Host'', GString ''override'')])
   \<and> Send_data ''h'' 1500000000123456789 [(''msg'', GString ''x''), (''Host'', GString ''override'')]
       = [(''Host'', GString ''override''), (''Timestamp'', GInt64 1500000000123), (''msg'', GString ''x'')]
   \<and> map_of (Send_data ''h'' 1500000000123456789
               [(''msg'', GString ''x''), (''Host'', GString ''override'')]) ''Host''
       = Some (GString ''override'')
   \<and> Send_data ''h'' 1500000000123456789 [(''msg'', GString ''x'')]
       = [(''Host'', GString ''h''), (''Timestamp'', GInt64 1500000000123), (''msg'', GString ''x'')]"
proof -
  have h: "distinct (map fst [(''msg'', GString ''x''), (''Host'', GString ''override'')])"
    by simp
  have e1: "Send_data ''h'' 1500000000123456789 [(''msg'', GString ''x''), (''Host'', GString ''override'')]
       = [(''Host'', GString ''override''), (''Timestamp'', GInt64 1500000000123), (''msg'', GString ''x'')]"
    by (simp add: Send_data_def quot_def)
  have e2: "Send_data ''h'' 1500000000123456789 [(''msg'', GString ''x'')]
       = [(''Host'', GString ''h''), (''Timestamp'', GInt64 1500000000123), (''msg'', GString ''x'')]"
    by (simp add: Send_data_def quot_def)
  from Send_data_merges_fields [OF h, of "''h''" 1500000000123456789] h e1 e2
  show ?thesis by simp
qed

lemma set_update_subset:
  "(a, b) \<in> set (AList.update k v al) \<Longrightarrow> (a, b) = (k, v) \<or> (a, b) \<in> set al"
  by (induction al) (auto split: if_splits)

lemma keys_update: "fst ` set (AList.update k v al) = insert k (fst ` set al)"
  by (induction al) auto

lemma dumpTags_shape:
  assumes "dumpTags aggs bucketName m fs = Inr fs'"
  shows "(\<forall>(k, v) \<in> set fs'. (k, v) \<in> set fs \<or> isMapInt64 v)
     \<and> fst ` set fs' = fst ` set fs \<union> (\<lambda>(bucketTag, tv). bucketName @ bucketTag) ` set m"
  using assms
proof (induction m arbitrary: fs)
  case Nil
  then show ?case by auto
next
  case (Cons e m)
  obtain bucketTag tv where e: "e = (bucketTag, tv)" by (cases e)
  with Cons.prems obtain r where
    r: "getAggregation tv aggs = Inr r" and
    rest: "dumpTags aggs bucketName m (AList.update (bucketName @ bucketTag) (GMapInt64 r) fs) = Inr fs'"
    by (auto split: sum.splits)
  from Cons.IH [OF rest] have
    v: "\<forall>(k, v) \<in> set fs'. (k, v) \<in> set (AList.update (bucketName @ bucketTag) (GMapInt64 r) fs) \<or> isMapInt64 v"
    and k: "fst ` set fs' = fst ` set (AList.update (bucketName @ bucketTag) (GMapInt64 r) fs)
                \<union> (\<lambda>(bucketTag, tv). bucketName @ bucketTag) ` set m"
    by auto
  have "\<forall>(k, v) \<in> set fs'. (k, v) \<in> set fs \<or> isMapInt64 v"
  proof (intro ballI, clarify)
    fix a b assume ab: "(a, b) \<in> set fs'" "\<not> isMapInt64 b"
    with v have "(a, b) \<in> set (AList.update (bucketName @ bucketTag) (GMapInt64 r) fs)" by auto
    from set_update_subset [OF this] ab(2) show "(a, b) \<in> set fs"
      by (auto simp: isMapInt64_def)
  qed
  moreover have "fst ` set fs' = fst ` set fs \<union> (\<lambda>(bucketTag, tv). bucketName @ bucketTag) ` set (e # m)"
    using k e by (simp add: keys_update)
  ultimately show ?case by blast
qed

lemma dumpBuckets_shape:
  assumes "dumpBuckets aggs bs fs = Inr fs'"
  shows "(\<forall>(k, v) \<in> set fs'. (k, v) \<in> set fs \<or> isMapInt64 v)
     \<and> fst ` set fs' = fst ` set fs
          \<union> (\<Union>(bucketName, m) \<in> set bs. (\<lambda>(bucketTag, tv). bucketName @ bucketTag) ` set m)"
  using assms
proof (induction bs arbitrary: fs)
  case Nil
  then show ?case by auto
next
  case (Cons e bs)
  obtain bucketName m where e: "e = (bucketName, m)" by (cases e)
  with Cons.prems obtain fs1 where
    t: "dumpTags aggs bucketName m fs = Inr fs1" and
    rest: "dumpBuckets aggs bs fs1 = Inr fs'"
    by (auto split: sum.splits)
  from dumpTags_shape [OF t] have
    v1: "\<forall>(k, v) \<in> set fs1. (k, v) \<in> set fs \<or> isMapInt64 v"
    and k1: "fst ` set fs1 = fst ` set fs \<union> (\<lambda>(bucketTag, tv). bucketName @ bucketTag) ` set m"
    by auto
  from Cons.IH [OF rest] have
    v2: "\<forall>(k, v) \<in> set fs'. (k, v) \<in> set fs1 \<or> isMapInt64 v"
    and k2: "fst ` set fs' = fst ` set fs1
          \<union> (\<Union>(bucketName, m) \<in> set bs. (\<lambda>(bucketTag, tv). bucketName @ bucketTag) ` set m)"
    by auto
  have "\<forall>(k, v) \<in> set fs'. (k, v) \<in> set fs \<or> isMapInt64 v"
  proof (intro ballI, clarify)
    fix a b assume ab: "(a, b) \<in> set fs'" "\<not> isMapInt64 b"
    with v2 have "(a, b) \<in> set fs1" by auto
    with v1 ab(2) show "(a, b) \<in> set fs" by auto
  qed
  moreover have "fst ` set fs' = fst ` set fs
          \<union> (\<Union>(bucketName, m) \<in> set (e # bs). (\<lambda>(bucketTag, tv). bucketName @ bucketTag) ` set m)"
    unfolding k2 k1 e by auto
  ultimately show ?case by blast
qed

lemma influxLines_panics:
  assumes "\<forall>(k, v) \<in> set fs. k \<noteq> ''timestamp'' \<longrightarrow> isMapInt64 v"
    and "\<exists>(k, v) \<in> set fs. k \<noteq> ''timestamp''"
  shows "influxLines FormatFloat hostName timestamp fs lines = Inl TypeAssertion"
  using assms
proof (induction fs arbitrary: lines)
  case Nil
  then show ?case by simp
next
  case (Cons e fs)
  obtain k v where e: "e = (k, v)" by (cases e)
  show ?case
  proof (cases "k = ''timestamp''")
    case True
    with Cons.prems e have "\<forall>(k, v) \<in> set fs. k \<noteq> ''timestamp'' \<longrightarrow> isMapInt64 v"
      "\<exists>(k, v) \<in> set fs. k \<noteq> ''timestamp''" by auto
    from Cons.IH [OF this] True e show ?thesis by simp
  next
    case False
    with Cons.prems(1) e have "isMapInt64 v" by auto
    with False e show ?thesis
      by (cases v) (simp_all add: isMapInt64_def)
  qed
qed

lemma InfluxDbSender_Send_Dump:
  assumes "Dump a timestamp = Inr (d, a')"
    and "(bucketName, m) \<in> set (buckets a)" and "(bucketTag, tv) \<in> set m"
    and "bucketName @ bucketTag \<noteq> ''timestamp''"
  shows "InfluxDbSender_Send FormatFloat p d = Inl TypeAssertion"
proof -
  from assms(1) obtain fs0 where
    fs0: "dumpBuckets (Aggregations (AggregatorConfigs a)) (buckets a) [] = Inr fs0" and
    d: "d = AList.update ''timestamp'' (GInt64 timestamp) fs0"
    by (auto simp: Dump_def split: sum.splits)
  from dumpBuckets_shape [OF fs0] have
    v: "\<forall>(k, v) \<in> set fs0. isMapInt64 v" and
    k: "fst ` set fs0 = (\<Union>(bucketName, m) \<in> set (buckets a). (\<lambda>(bucketTag, tv). bucketName @ bucketTag) ` set m)"
    by auto
  have ts: "map_of d ''timestamp'' = Some (GInt64 timestamp)"
    by (simp add: d update_conv')
  have shape: "\<forall>(k, v) \<in> set d. k \<noteq> ''timestamp'' \<longrightarrow> isMapInt64 v"
  proof (intro ballI, clarify)
    fix x y assume "(x, y) \<in> set d" "x \<noteq> ''timestamp''"
    with set_update_subset [of x y "''timestamp''" "GInt64 timestamp" fs0] d
    have "(x, y) \<in> set fs0" by auto
    with v show "isMapInt64 y" by auto
  qed
  have "bucketName @ bucketTag \<in> (\<lambda>(bucketTag, tv). bucketName @ bucketTag) ` set m"
    using assms(3) by (intro image_eqI [where x = "(bucketTag, tv)"]) simp_all
  with assms(2) have "bucketName @ bucketTag
      \<in> (\<Union>(bucketName, m) \<in> set (buckets a). (\<lambda>(bucketTag, tv). bucketName @ bucketTag) ` set m)"
    by (intro UN_I [where a = "(bucketName, m)"]) simp_all
  with k have "bucketName @ bucketTag \<in> fst ` set fs0" by simp
  then have "bucketName @ bucketTag \<in> fst ` set d"
    by (simp add: d keys_update)
  then obtain y where "(bucketName @ bucketTag, y) \<in> set d" by auto
  with assms(4) have ex: "\<exists>(k, v) \<in> set d. k \<noteq> ''timestamp''"
    by (intro bexI [where x = "(bucketName @ bucketTag, y)"]) simp_all
  from influxLines_panics [OF shape ex] ts show ?thesis
    by (simp add: InfluxDbSender_Send_def toInfluxdbLine_def)
qed



text \<open>
  C9. Claim: on every field map of the shape \<open>Aggregator.Dump\<close> produces, \<open>InfluxDbSender.Send\<close>
  evaluates without failure and emits one line per non-timestamp field. On the code this
  fails: \<open>getAggregation\<close> returns a \<open>map[string]int64\<close> and \<open>Dump\<close> stores it as it is, while
  \<open>toInfluxdbLine\<close> asserts \<open>v.(map[string]float64)\<close>, so the first aggregation result
  reached panics (\<open>InfluxDbSender_Send_Dump\<close>, for every dump that holds a bucket key other
  than \<open>timestamp\<close>). The theorem evaluates the example: the dump of three samples makes
  \<open>Send\<close> panic for every formatter and sender, while the same content as
  \<open>map[string]float64\<close> yields the line the claim describes.
\<close>

theorem InfluxDbSender_Send_panics_on_Dump:
  "Dump exampleAggregator 60 =
       Inr ([(''cpu,host=a'', GMapInt64 [(''cnt'', 3), (''sum'', 15), (''avg'', 5), (''min'', 3),
                                         (''max'', 7), (''p50'', 3)]),
             (''timestamp'', GInt64 60)],
            exampleAggregator\<lparr>postTime := 1, buckets := []\<rparr>)
   \<and> InfluxDbSender_Send FormatFloat p
         [(''cpu,host=a'', GMapInt64 [(''cnt'', 3), (''sum'', 15), (''avg'', 5), (''min'', 3),
                                      (''max'', 7), (''p50'', 3)]),
          (''timestamp'', GInt64 60)]
       = Inl TypeAssertion
   \<and> InfluxDbSender_Send (\<lambda>x. ''1.000'') exampleInflux
         [(''cpu,host=a'', GMapFloat64 [(''cnt'', Float64 1), (''sum'', Float64 2)]),
          (''timestamp'', GInt64 60)]
       = Inr (''http://127.0.0.1:8086/write?db=logs'',
              ''cpu,host=a,host=10.0.0.1 cnt=1.000,sum=1.000 60000000000'' @ [CHR 0x0A])"
proof -
  have d: "Dump exampleAggregator 60 =
       Inr ([(''cpu,host=a'', GMapInt64 [(''cnt'', 3), (''sum'', 15), (''avg'', 5), (''min'', 3),
                                         (''max'', 7), (''p50'', 3)]),
             (''timestamp'', GInt64 60)],
            exampleAggregator\<lparr>postTime := 1, buckets := []\<rparr>)"
    by code_simp
  have b: "(''cpu'', [('',host=a'', [7, 3, 5])]) \<in> set (buckets exampleAggregator)"
      "('',host=a'', [7, 3, 5]) \<in> set [('',host=a'', [7, 3, 5 :: int])]"
      "''cpu'' @ '',host=a'' \<noteq> ''timestamp''"
    by (simp_all add: exampleAggregator_def)
  note s = InfluxDbSender_Send_Dump [OF d b, of FormatFloat p]
  have f: "InfluxDbSender_Send (\<lambda>x. ''1.000'') exampleInflux
         [(''cpu,host=a'', GMapFloat64 [(''cnt'', Float64 1), (''sum'', Float64 2)]),
          (''timestamp'', GInt64 60)]
       = Inr (''http://127.0.0.1:8086/write?db=logs'',
              ''cpu,host=a,host=10.0.0.1 cnt=1.000,sum=1.000 60000000000'' @ [CHR 0x0A])"
    by (simp add: InfluxDbSender_Send_def toInfluxdbLine_def exampleInflux_def FormatInt_def
          decimalDigits.simps mul64_def wrap64_def digitChar_def)
  show ?thesis
    by (rule conjI [OF d conjI [OF s f]])
qed

section \<open>Properties of the registry\<close>

lemma NewPeckTask_Inr:
  assumes "NewPeckTask NewExtractor NewPeckFilter NewSender interval c st = Inr task"
  shows "Config task = c"
    and "Stat task = (case st of
                    None \<Rightarrow> \<lparr>PeckTaskStat.Name = PeckTaskConfig.Name c, LogPath = [],
                              LinesPerSec = 0, BytesPerSec = 0, LinesTotal = 0, BytesTotal = 0,
                              Stop = True\<rparr>
                  | Some s \<Rightarrow> s)"
  using assms by (auto simp: NewPeckTask_def Let_def split: sum.splits)

lemma AddPeckTask_result:
  assumes "map_of (nameToPath p) (PeckTaskConfig.Name c) = None"
    and "NewPeckTask NewExtractor NewPeckFilter NewSender interval c st = Inr task"
  shows "\<exists>p' lt0. AddPeckTask NewExtractor NewPeckFilter NewSender interval p c st = Inr (None, p')
     \<and> lt0 = (case map_of (logTasks p) (PeckTaskConfig.LogPath c) of
                None \<Rightarrow> NewLogTask (PeckTaskConfig.LogPath c) | Some lt \<Rightarrow> lt)
     \<and> map_of (logTasks p') =
          (map_of (logTasks p))(PeckTaskConfig.LogPath c \<mapsto>
             lt0\<lparr>peckTasks := AList.update (PeckTaskConfig.Name c) task (peckTasks lt0)\<rparr>)
     \<and> map_of (nameToPath p') = (map_of (nameToPath p))(PeckTaskConfig.Name c \<mapsto> PeckTaskConfig.LogPath c)
     \<and> db p' = SaveStat (SaveConfig (db p) c) (Stat task)"
proof -
  have cfg: "Config task = c"
    using NewPeckTask_Inr(1) [OF assms(2)] .
  show ?thesis
  proof (cases "map_of (logTasks p) (PeckTaskConfig.LogPath c)")
    case None
    with assms cfg show ?thesis
      by (simp add: AddPeckTask_def Pecker_record_def Let_def update_conv' LogTask_AddPeckTask_def)
  next
    case (Some lt)
    with assms cfg show ?thesis
      by (simp add: AddPeckTask_def Pecker_record_def Let_def update_conv' LogTask_AddPeckTask_def)
  qed
qed

lemma map_of_nonempty: "map_of al k = Some v \<Longrightarrow> al \<noteq> []"
  by auto

lemma AddPeckTask_invariant:
  assumes con: "consistent p"
  shows "\<exists>err p'. AddPeckTask NewExtractor NewPeckFilter NewSender interval p c st = Inr (err, p')
           \<and> consistent p' \<and> (synced p \<and> wellFormed (Add c st) \<longrightarrow> synced p')"
proof (cases "map_of (nameToPath p) (PeckTaskConfig.Name c) = None")
  case False
  then show ?thesis
    using con by (simp add: AddPeckTask_def)
next
  case fresh: True
  show ?thesis
  proof (cases "NewPeckTask NewExtractor NewPeckFilter NewSender interval c st")
    case (Inl err)
    with fresh show ?thesis
      using con by (simp add: AddPeckTask_def)
  next
    case (Inr task)
    let ?n = "PeckTaskConfig.Name c" and ?path = "PeckTaskConfig.LogPath c"
    from AddPeckTask_result [OF fresh Inr] obtain p' lt0 where
      res: "AddPeckTask NewExtractor NewPeckFilter NewSender interval p c st = Inr (None, p')" and
      lt0: "lt0 = (case map_of (logTasks p) ?path of None \<Rightarrow> NewLogTask ?path | Some lt \<Rightarrow> lt)" and
      L: "map_of (logTasks p') =
            (map_of (logTasks p))(?path \<mapsto> lt0\<lparr>peckTasks := AList.update ?n task (peckTasks lt0)\<rparr>)" and
      N: "map_of (nameToPath p') = (map_of (nameToPath p))(?n \<mapsto> ?path)" and
      D: "db p' = SaveStat (SaveConfig (db p) c) (Stat task)"
      by blast
    define lt1 where "lt1 = lt0\<lparr>peckTasks := AList.update ?n task (peckTasks lt0)\<rparr>"
    have T1: "map_of (peckTasks lt1) = (map_of (peckTasks lt0))(?n \<mapsto> task)"
      by (simp add: lt1_def update_conv')
    have ne1: "peckTasks lt1 \<noteq> []"
      using T1 map_of_nonempty [of "peckTasks lt1" ?n task] by simp
    from con have con1: "\<And>name path. map_of (nameToPath p) name = Some path \<Longrightarrow>
        \<exists>lt. map_of (logTasks p) path = Some lt \<and> map_of (peckTasks lt) name \<noteq> None"
      and con2: "\<And>path lt. map_of (logTasks p) path = Some lt \<Longrightarrow> peckTasks lt \<noteq> []"
      and con3: "\<And>path lt name. map_of (logTasks p) path = Some lt \<Longrightarrow>
        map_of (peckTasks lt) name \<noteq> None \<Longrightarrow> map_of (nameToPath p) name = Some path"
      unfolding consistent_def subscribed_def by blast+
    have old0: "map_of (logTasks p) ?path = Some lt0" if "map_of (peckTasks lt0) name \<noteq> None" for name
      using that lt0 by (cases "map_of (logTasks p) ?path") (simp_all add: NewLogTask_def)
    have c1: "\<exists>lt. map_of (logTasks p') path = Some lt \<and> subscribed lt name"
      if h: "map_of (nameToPath p') name = Some path" for name path
    proof (cases "name = ?n")
      case True
      with h N have "path = ?path" by simp
      with True L T1 show ?thesis
        by (simp add: subscribed_def lt1_def)
    next
      case False
      with h N have "map_of (nameToPath p) name = Some path" by simp
      from con1 [OF this] obtain lt where lt: "map_of (logTasks p) path = Some lt"
        "map_of (peckTasks lt) name \<noteq> None" by blast
      show ?thesis
      proof (cases "path = ?path")
        case True
        with lt lt0 have "lt0 = lt" by simp
        with True L T1 lt False show ?thesis
          by (simp add: subscribed_def lt1_def)
      next
        case False
        with L lt show ?thesis by (simp add: subscribed_def)
      qed
    qed
    have c2: "peckTasks lt \<noteq> [] \<and> (\<forall>name. subscribed lt name \<longrightarrow> map_of (nameToPath p') name = Some path)"
      if h: "map_of (logTasks p') path = Some lt" for path lt
    proof (cases "path = ?path")
      case True
      with h L have lt: "lt = lt1" by (simp add: lt1_def)
      have "map_of (nameToPath p') name = Some path" if s: "subscribed lt name" for name
      proof (cases "name = ?n")
        case True
        with N \<open>path = ?path\<close> show ?thesis by simp
      next
        case False
        with s lt T1 have "map_of (peckTasks lt0) name \<noteq> None" by (simp add: subscribed_def)
        from con3 [OF old0 [OF this] this] False N \<open>path = ?path\<close> show ?thesis by simp
      qed
      with lt ne1 show ?thesis by blast
    next
      case False
      with h L have old: "map_of (logTasks p) path = Some lt" by simp
      have "map_of (nameToPath p') name = Some path" if s: "subscribed lt name" for name
      proof -
        from con3 [OF old] s have r: "map_of (nameToPath p) name = Some path"
          by (simp add: subscribed_def)
        with fresh have "name \<noteq> ?n" by auto
        with r N show ?thesis by simp
      qed
      with con2 [OF old] show ?thesis by blast
    qed
    have consistent': "consistent p'"
      unfolding consistent_def using c1 c2 by blast
    have synced': "synced p'" if syn: "synced p" and wf: "wellFormed (Add c st)"
    proof -
    have sname: "PeckTaskStat.Name (Stat task) = ?n"
      using NewPeckTask_Inr(2) [OF Inr] wf by (cases st) simp_all
    have S: "map_of (stats (db p')) = (map_of (stats (db p)))(?n \<mapsto> Stat task)"
      using sname by (simp add: D SaveStat_def SaveConfig_def update_conv')
    have s1: "\<exists>st. map_of (stats (db p')) name = Some st \<and> Stop st = Stop (Stat task')
                \<and> PeckTaskStat.Name st = name"
      if h: "map_of (logTasks p') path = Some lt \<and> map_of (peckTasks lt) name = Some task'"
      for path lt name task'
    proof (cases "name = ?n")
      case True
      have "path = ?path"
      proof (rule ccontr)
        assume ne: "path \<noteq> ?path"
        with h L have "map_of (logTasks p) path = Some lt" by simp
        from con3 [OF this] h True fresh show False by simp
      qed
      with h L T1 True have "task' = task" by (simp add: lt1_def)
      with S True sname show ?thesis by simp
    next
      case False
      have "\<exists>lt'. map_of (logTasks p) path = Some lt' \<and> map_of (peckTasks lt') name = Some task'"
      proof (cases "path = ?path")
        case True
        with h L have "lt = lt1" by (simp add: lt1_def)
        with h T1 False have t: "map_of (peckTasks lt0) name = Some task'" by simp
        then have "map_of (peckTasks lt0) name \<noteq> None" by simp
        from old0 [OF this] t True show ?thesis by blast
      next
        case False
        with h L show ?thesis by simp
      qed
      then obtain lt' where "map_of (logTasks p) path = Some lt' \<and> map_of (peckTasks lt') name = Some task'"
        by blast
      with syn obtain st where "map_of (stats (db p)) name = Some st \<and> Stop st = Stop (Stat task')
          \<and> PeckTaskStat.Name st = name"
        unfolding synced_def by blast
      with S False show ?thesis by simp
    qed
    show ?thesis
      unfolding synced_def using s1 by blast
    qed
    from res consistent' synced' show ?thesis by blast
  qed
qed

lemma registered_task:
  assumes "consistent p" and "map_of (nameToPath p) name = Some path"
  shows "\<exists>lt task. map_of (logTasks p) path = Some lt \<and> map_of (peckTasks lt) name = Some task"
  using assms unfolding consistent_def subscribed_def by fastforce

lemma RemovePeckTask_result:
  assumes "map_of (nameToPath p) (PeckTaskConfig.Name c) = Some path"
    and "map_of (logTasks p) path = Some lt"
    and "map_of (peckTasks lt) (PeckTaskConfig.Name c) = Some task"
  shows "\<exists>p'. RemovePeckTask p c = Inr (None, p')
     \<and> map_of (nameToPath p') = (map_of (nameToPath p))(PeckTaskConfig.Name c := None)
     \<and> map_of (logTasks p') =
         (if AList.delete (PeckTaskConfig.Name c) (peckTasks lt) = []
          then (map_of (logTasks p))(path := None)
          else (map_of (logTasks p))(path \<mapsto>
                 lt\<lparr>peckTasks := AList.delete (PeckTaskConfig.Name c) (peckTasks lt)\<rparr>))
     \<and> db p' = RemoveStat (RemoveConfig (db p) (PeckTaskConfig.Name c)) (PeckTaskConfig.Name c)"
  using assms
  by (simp add: RemovePeckTask_def LogTask_RemovePeckTask_def LogTask_Empty_def Let_def
        update_conv' delete_conv')

lemma RemovePeckTask_invariant:
  assumes con: "consistent p"
  shows "\<exists>err p'. RemovePeckTask p c = Inr (err, p') \<and> consistent p' \<and> (synced p \<longrightarrow> synced p')"
proof (cases "map_of (nameToPath p) (PeckTaskConfig.Name c)")
  case None
  then show ?thesis
    using con by (simp add: RemovePeckTask_def)
next
  case (Some path)
  let ?n = "PeckTaskConfig.Name c"
  from registered_task [OF con Some] obtain lt task where
    lt: "map_of (logTasks p) path = Some lt" and task: "map_of (peckTasks lt) ?n = Some task"
    by blast
  define lt1 where "lt1 = lt\<lparr>peckTasks := AList.delete ?n (peckTasks lt)\<rparr>"
  from RemovePeckTask_result [OF Some lt task] obtain p' where
    res: "RemovePeckTask p c = Inr (None, p')" and
    N: "map_of (nameToPath p') = (map_of (nameToPath p))(?n := None)" and
    L: "map_of (logTasks p') =
         (if peckTasks lt1 = [] then (map_of (logTasks p))(path := None)
          else (map_of (logTasks p))(path \<mapsto> lt1))" and
    D: "db p' = RemoveStat (RemoveConfig (db p) ?n) ?n"
    unfolding lt1_def by auto
  have T1: "map_of (peckTasks lt1) = (map_of (peckTasks lt))(?n := None)"
    by (simp add: lt1_def delete_conv')
  have S: "map_of (stats (db p')) = (map_of (stats (db p)))(?n := None)"
    by (simp add: D RemoveStat_def RemoveConfig_def delete_conv')
  from con have con1: "\<And>name path. map_of (nameToPath p) name = Some path \<Longrightarrow>
        \<exists>lt. map_of (logTasks p) path = Some lt \<and> map_of (peckTasks lt) name \<noteq> None"
      and con2: "\<And>path lt. map_of (logTasks p) path = Some lt \<Longrightarrow> peckTasks lt \<noteq> []"
      and con3: "\<And>path lt name. map_of (logTasks p) path = Some lt \<Longrightarrow>
        map_of (peckTasks lt) name \<noteq> None \<Longrightarrow> map_of (nameToPath p) name = Some path"
    unfolding consistent_def subscribed_def by blast+
  have Lother: "map_of (logTasks p') path' = map_of (logTasks p) path'" if "path' \<noteq> path" for path'
    using L that by simp
  have Lsame: "map_of (logTasks p') path = Some lt' \<Longrightarrow> lt' = lt1 \<and> peckTasks lt1 \<noteq> []" for lt'
    using L by (auto split: if_splits)
  have c1: "\<exists>lt'. map_of (logTasks p') path' = Some lt' \<and> subscribed lt' name"
    if h: "map_of (nameToPath p') name = Some path'" for name path'
  proof -
    from h N have ne: "name \<noteq> ?n" and old: "map_of (nameToPath p) name = Some path'"
      by (auto split: if_splits)
    from con1 [OF old] obtain lt' where lt': "map_of (logTasks p) path' = Some lt'"
      "map_of (peckTasks lt') name \<noteq> None" by blast
    show ?thesis
    proof (cases "path' = path")
      case True
      with lt' lt have "lt' = lt" by simp
      with lt' ne T1 have sub: "map_of (peckTasks lt1) name \<noteq> None" by simp
      then have "peckTasks lt1 \<noteq> []" by auto
      with L True sub show ?thesis by (simp add: subscribed_def)
    next
      case False
      with Lother lt' show ?thesis by (simp add: subscribed_def)
    qed
  qed
  have c2: "peckTasks lt' \<noteq> [] \<and> (\<forall>name. subscribed lt' name \<longrightarrow> map_of (nameToPath p') name = Some path')"
    if h: "map_of (logTasks p') path' = Some lt'" for path' lt'
  proof (cases "path' = path")
    case True
    with h Lsame have e: "lt' = lt1" "peckTasks lt1 \<noteq> []" by auto
    have "map_of (nameToPath p') name = Some path'" if s: "subscribed lt' name" for name
    proof -
      from s e T1 have ne: "name \<noteq> ?n" and "map_of (peckTasks lt) name \<noteq> None"
        by (auto simp: subscribed_def split: if_splits)
      from con3 [OF lt this(2)] ne N True show ?thesis by simp
    qed
    with e show ?thesis by blast
  next
    case False
    with h Lother have old: "map_of (logTasks p) path' = Some lt'" by simp
    have "map_of (nameToPath p') name = Some path'" if s: "subscribed lt' name" for name
    proof -
      from con3 [OF old] s have r: "map_of (nameToPath p) name = Some path'"
        by (simp add: subscribed_def)
      with Some False have "name \<noteq> ?n" by auto
      with r N show ?thesis by simp
    qed
    with con2 [OF old] show ?thesis by blast
  qed
  have consistent': "consistent p'"
    unfolding consistent_def using c1 c2 by blast
  have s1: "\<exists>st. map_of (stats (db p')) name = Some st \<and> Stop st = Stop (Stat task')
                \<and> PeckTaskStat.Name st = name"
    if syn: "synced p"
      and h: "map_of (logTasks p') path' = Some lt' \<and> map_of (peckTasks lt') name = Some task'"
    for path' lt' name task'
  proof -
    have "name \<noteq> ?n \<and> (\<exists>lt0. map_of (logTasks p) path' = Some lt0 \<and> map_of (peckTasks lt0) name = Some task')"
    proof (cases "path' = path")
      case True
      with h Lsame have e: "lt' = lt1" by auto
      with h T1 have "name \<noteq> ?n" "map_of (peckTasks lt) name = Some task'"
        by (auto split: if_splits)
      with lt True show ?thesis by blast
    next
      case False
      with h Lother have old: "map_of (logTasks p) path' = Some lt'" by simp
      from con3 [OF old] h have "map_of (nameToPath p) name = Some path'" by simp
      with Some False have "name \<noteq> ?n" by auto
      with old h show ?thesis by blast
    qed
    then obtain lt0 where ne: "name \<noteq> ?n" and
      "map_of (logTasks p) path' = Some lt0 \<and> map_of (peckTasks lt0) name = Some task'" by blast
    with syn obtain st where "map_of (stats (db p)) name = Some st \<and> Stop st = Stop (Stat task')
          \<and> PeckTaskStat.Name st = name"
      unfolding synced_def by blast
    with S ne show ?thesis by simp
  qed
  have synced': "synced p'" if "synced p"
    unfolding synced_def using s1 [OF that] by blast
  from res consistent' synced' show ?thesis by blast
qed

lemma invariant_update_task:
  assumes con: "consistent p" and syn: "synced p"
    and reg: "map_of (nameToPath p) n = Some path"
    and lt: "map_of (logTasks p) path = Some lt"
    and task: "map_of (peckTasks lt) n = Some task"
    and N: "map_of (nameToPath p') = map_of (nameToPath p)"
    and L: "map_of (logTasks p') = (map_of (logTasks p))(path \<mapsto> lt')"
    and T: "map_of (peckTasks lt') = (map_of (peckTasks lt))(n \<mapsto> task')"
    and S: "map_of (stats (db p')) = (map_of (stats (db p)))(n \<mapsto> st')"
    and st': "Stop st' = Stop (Stat task')" "PeckTaskStat.Name st' = n"
  shows "consistent p' \<and> synced p'"
proof -
  from con have con1: "\<And>name path. map_of (nameToPath p) name = Some path \<Longrightarrow>
        \<exists>lt. map_of (logTasks p) path = Some lt \<and> map_of (peckTasks lt) name \<noteq> None"
      and con2: "\<And>path lt. map_of (logTasks p) path = Some lt \<Longrightarrow> peckTasks lt \<noteq> []"
      and con3: "\<And>path lt name. map_of (logTasks p) path = Some lt \<Longrightarrow>
        map_of (peckTasks lt) name \<noteq> None \<Longrightarrow> map_of (nameToPath p) name = Some path"
    unfolding consistent_def subscribed_def by blast+
  have sub: "map_of (peckTasks lt') name \<noteq> None \<longleftrightarrow> map_of (peckTasks lt) name \<noteq> None" for name
    using T task by (cases "name = n") simp_all
  have ne': "peckTasks lt' \<noteq> []"
    using T map_of_nonempty [of "peckTasks lt'" n task'] by simp
  have c1: "\<exists>l. map_of (logTasks p') path' = Some l \<and> subscribed l name"
    if h: "map_of (nameToPath p') name = Some path'" for name path'
  proof -
    from h N have "map_of (nameToPath p) name = Some path'" by simp
    from con1 [OF this] obtain l where l: "map_of (logTasks p) path' = Some l"
      "map_of (peckTasks l) name \<noteq> None" by blast
    show ?thesis
    proof (cases "path' = path")
      case True
      with l lt have "l = lt" by simp
      with l sub True L show ?thesis by (simp add: subscribed_def)
    next
      case False
      with l L show ?thesis by (simp add: subscribed_def)
    qed
  qed
  have c2: "peckTasks l \<noteq> [] \<and> (\<forall>name. subscribed l name \<longrightarrow> map_of (nameToPath p') name = Some path')"
    if h: "map_of (logTasks p') path' = Some l" for path' l
  proof (cases "path' = path")
    case True
    with h L have "l = lt'" by simp
    with ne' sub con3 [OF lt] N True show ?thesis by (simp add: subscribed_def)
  next
    case False
    with h L have old: "map_of (logTasks p) path' = Some l" by simp
    with con2 [OF old] con3 [OF old] N show ?thesis by (simp add: subscribed_def)
  qed
  have consistent': "consistent p'"
    unfolding consistent_def using c1 c2 by blast
  have s1: "\<exists>st. map_of (stats (db p')) name = Some st \<and> Stop st = Stop (Stat t)
                \<and> PeckTaskStat.Name st = name"
    if h: "map_of (logTasks p') path' = Some l \<and> map_of (peckTasks l) name = Some t"
    for path' l name t
  proof (cases "name = n")
    case True
    have "path' = path"
    proof (rule ccontr)
      assume ne: "path' \<noteq> path"
      with h L have "map_of (logTasks p) path' = Some l" by simp
      from con3 [OF this] h True reg ne show False by simp
    qed
    with h L T True have "t = task'" by simp
    with S True st' show ?thesis by simp
  next
    case False
    have "\<exists>l0. map_of (logTasks p) path' = Some l0 \<and> map_of (peckTasks l0) name = Some t"
    proof (cases "path' = path")
      case True
      with h L T False lt show ?thesis by simp
    next
      case False
      with h L show ?thesis by simp
    qed
    with syn obtain st where "map_of (stats (db p)) name = Some st \<and> Stop st = Stop (Stat t)
          \<and> PeckTaskStat.Name st = name"
      unfolding synced_def by blast
    with S False show ?thesis by simp
  qed
  have synced': "synced p'"
    unfolding synced_def using s1 by blast
  from consistent' synced' show ?thesis by blast
qed

lemma registered_stat:
  assumes "synced p" and "map_of (logTasks p) path = Some lt"
    and "map_of (peckTasks lt) name = Some task"
  shows "\<exists>st. map_of (stats (db p)) name = Some st \<and> Stop st = Stop (Stat task)
           \<and> PeckTaskStat.Name st = name"
  using assms unfolding synced_def by blast

lemma StartPeckTask_invariant:
  assumes con: "consistent p" and syn: "synced p"
  shows "\<exists>err p'. StartPeckTask p c = Inr (err, p') \<and> consistent p' \<and> synced p'"
proof (cases "map_of (nameToPath p) (PeckTaskConfig.Name c)")
  case None
  then show ?thesis
    using con syn by (simp add: StartPeckTask_def)
next
  case (Some path)
  let ?n = "PeckTaskConfig.Name c"
  from registered_task [OF con Some] obtain lt task where
    lt: "map_of (logTasks p) path = Some lt" and task: "map_of (peckTasks lt) ?n = Some task"
    by blast
  from registered_stat [OF syn lt task] obtain st where
    st: "map_of (stats (db p)) ?n = Some st" "Stop st = Stop (Stat task)" "PeckTaskStat.Name st = ?n"
    by blast
  define lt1 where "lt1 = lt\<lparr>peckTasks := AList.update ?n (PeckTask_Start task) (peckTasks lt)\<rparr>"
  have T1: "map_of (peckTasks lt1) = (map_of (peckTasks lt))(?n \<mapsto> PeckTask_Start task)"
    by (simp add: lt1_def update_conv')
  have stop1: "\<not> Stop (Stat (PeckTask_Start task))"
    by (simp add: PeckTask_Start_def)
  show ?thesis
  proof (cases "Stop st")
    case False
    define p1 where "p1 = p\<lparr>logTasks := AList.update path lt1 (logTasks p)\<rparr>"
    have res: "StartPeckTask p c = Inr (Some (Err ''Task already started''), p1)"
      using Some lt task st False
      by (simp add: StartPeckTask_def LogTask_StartPeckTask_def GetStat_def Let_def p1_def lt1_def)
    have "consistent p1 \<and> synced p1"
    proof (rule invariant_update_task [OF con syn Some lt task _ _ T1])
      show "map_of (nameToPath p1) = map_of (nameToPath p)" by (simp add: p1_def)
      show "map_of (logTasks p1) = (map_of (logTasks p))(path \<mapsto> lt1)"
        by (simp add: p1_def update_conv')
      show "map_of (stats (db p1)) = (map_of (stats (db p)))(?n \<mapsto> st)"
        using st(1) by (auto simp: p1_def)
      show "Stop st = Stop (Stat (PeckTask_Start task))" using False stop1 by simp
      show "PeckTaskStat.Name st = ?n" using st(3) .
    qed
    with res show ?thesis by blast
  next
    case True
    define lt2 where "lt2 = (if LogTask_IsStop lt1 then LogTask_Start lt1 else lt1)"
    define p2 where "p2 = p\<lparr>logTasks := AList.update path lt2 (AList.update path lt1 (logTasks p)),
                             db := SaveStat (db p) (st\<lparr>Stop := False\<rparr>)\<rparr>"
    have res: "StartPeckTask p c = Inr (None, p2)"
      using Some lt task st True
      by (auto simp: StartPeckTask_def LogTask_StartPeckTask_def GetStat_def Let_def p2_def lt2_def
            lt1_def update_conv')
    have T2: "map_of (peckTasks lt2) = (map_of (peckTasks lt))(?n \<mapsto> PeckTask_Start task)"
      using T1 by (simp add: lt2_def LogTask_Start_def)
    have "consistent p2 \<and> synced p2"
    proof (rule invariant_update_task [OF con syn Some lt task _ _ T2])
      show "map_of (nameToPath p2) = map_of (nameToPath p)" by (simp add: p2_def)
      show "map_of (logTasks p2) = (map_of (logTasks p))(path \<mapsto> lt2)"
        by (simp add: p2_def update_conv')
      show "map_of (stats (db p2)) = (map_of (stats (db p)))(?n \<mapsto> st\<lparr>Stop := False\<rparr>)"
        using st(3) by (simp add: p2_def SaveStat_def update_conv')
      show "Stop (st\<lparr>Stop := False\<rparr>) = Stop (Stat (PeckTask_Start task))" using stop1 by simp
      show "PeckTaskStat.Name (st\<lparr>Stop := False\<rparr>) = ?n" using st(3) by simp
    qed
    with res show ?thesis by blast
  qed
qed

lemma StopPeckTask_invariant:
  assumes con: "consistent p" and syn: "synced p"
  shows "\<exists>err p'. StopPeckTask p c = Inr (err, p') \<and> consistent p' \<and> synced p'"
proof (cases "map_of (nameToPath p) (PeckTaskConfig.Name c)")
  case None
  then show ?thesis
    using con syn by (simp add: StopPeckTask_def)
next
  case (Some path)
  let ?n = "PeckTaskConfig.Name c"
  from registered_task [OF con Some] obtain lt task where
    lt: "map_of (logTasks p) path = Some lt" and task: "map_of (peckTasks lt) ?n = Some task"
    by blast
  from registered_stat [OF syn lt task] obtain st where
    st: "map_of (stats (db p)) ?n = Some st" "Stop st = Stop (Stat task)" "PeckTaskStat.Name st = ?n"
    by blast
  define lt1 where "lt1 = lt\<lparr>peckTasks := AList.update ?n (PeckTask_Stop task) (peckTasks lt)\<rparr>"
  have T1: "map_of (peckTasks lt1) = (map_of (peckTasks lt))(?n \<mapsto> PeckTask_Stop task)"
    by (simp add: lt1_def update_conv')
  have stop1: "Stop (Stat (PeckTask_Stop task))"
    by (simp add: PeckTask_Stop_def)
  show ?thesis
  proof (cases "Stop st")
    case True
    define p1 where "p1 = p\<lparr>logTasks := AList.update path lt1 (logTasks p)\<rparr>"
    have res: "StopPeckTask p c = Inr (Some (Err ''Task already stopped''), p1)"
      using Some lt task st True
      by (simp add: StopPeckTask_def LogTask_StopPeckTask_def GetStat_def Let_def p1_def lt1_def)
    have "consistent p1 \<and> synced p1"
    proof (rule invariant_update_task [OF con syn Some lt task _ _ T1])
      show "map_of (nameToPath p1) = map_of (nameToPath p)" by (simp add: p1_def)
      show "map_of (logTasks p1) = (map_of (logTasks p))(path \<mapsto> lt1)"
        by (simp add: p1_def update_conv')
      show "map_of (stats (db p1)) = (map_of (stats (db p)))(?n \<mapsto> st)"
        using st(1) by (auto simp: p1_def)
      show "Stop st = Stop (Stat (PeckTask_Stop task))" using True stop1 by simp
      show "PeckTaskStat.Name st = ?n" using st(3) .
    qed
    with res show ?thesis by blast
  next
    case False
    define p2 where "p2 = p\<lparr>logTasks := AList.update path lt1 (logTasks p),
                             db := SaveStat (db p) (st\<lparr>Stop := True\<rparr>)\<rparr>"
    have res: "StopPeckTask p c = Inr (None, p2)"
      using Some lt task st False
      by (simp add: StopPeckTask_def LogTask_StopPeckTask_def GetStat_def Let_def p2_def lt1_def)
    have "consistent p2 \<and> synced p2"
    proof (rule invariant_update_task [OF con syn Some lt task _ _ T1])
      show "map_of (nameToPath p2) = map_of (nameToPath p)" by (simp add: p2_def)
      show "map_of (logTasks p2) = (map_of (logTasks p))(path \<mapsto> lt1)"
        by (simp add: p2_def update_conv')
      show "map_of (stats (db p2)) = (map_of (stats (db p)))(?n \<mapsto> st\<lparr>Stop := True\<rparr>)"
        using st(3) by (simp add: p2_def SaveStat_def update_conv')
      show "Stop (st\<lparr>Stop := True\<rparr>) = Stop (Stat (PeckTask_Stop task))" using stop1 by simp
      show "PeckTaskStat.Name (st\<lparr>Stop := True\<rparr>) = ?n" using st(3) by simp
    qed
    with res show ?thesis by blast
  qed
qed

lemma serve_invariant:
  assumes "consistent p" "synced p" "wellFormed r"
  shows "\<exists>err p'. serve NewExtractor NewPeckFilter NewSender interval p r = Inr (err, p')
           \<and> consistent p' \<and> synced p'"
proof (cases r)
  case (Add c st)
  with assms AddPeckTask_invariant [of p NewExtractor NewPeckFilter NewSender interval c st]
  show ?thesis by auto
next
  case (Remove c)
  with assms RemovePeckTask_invariant [of p c] show ?thesis by auto
next
  case (Start c)
  with assms StartPeckTask_invariant [of p c] show ?thesis by simp
next
  case (Halt c)
  with assms StopPeckTask_invariant [of p c] show ?thesis by simp
qed

lemma serveAll_invariant:
  assumes "consistent p" "synced p" "\<forall>r \<in> set rs. wellFormed r"
  shows "\<exists>p'. serveAll NewExtractor NewPeckFilter NewSender interval p rs = Inr p'
           \<and> consistent p' \<and> synced p'"
  using assms
proof (induction rs arbitrary: p)
  case Nil
  then show ?case by simp
next
  case (Cons r rs)
  from serve_invariant [OF Cons.prems(1,2), of r NewExtractor NewPeckFilter NewSender interval]
    Cons.prems(3)
  obtain err p1 where s: "serve NewExtractor NewPeckFilter NewSender interval p r = Inr (err, p1)"
    and i: "consistent p1" "synced p1" by auto
  from Cons.IH [OF i] Cons.prems(3) s show ?case by simp
qed

lemma emptyPecker_invariant: "consistent (emptyPecker d) \<and> synced (emptyPecker d)"
  by (simp add: consistent_def synced_def emptyPecker_def)

lemma serveAll_consistent:
  assumes "consistent p" "\<forall>r \<in> set rs. isAddRemove r"
  shows "\<exists>p'. serveAll NewExtractor NewPeckFilter NewSender interval p rs = Inr p' \<and> consistent p'"
  using assms
proof (induction rs arbitrary: p)
  case Nil
  then show ?case by simp
next
  case (Cons r rs)
  have "\<exists>err p1. serve NewExtractor NewPeckFilter NewSender interval p r = Inr (err, p1) \<and> consistent p1"
  proof (cases r)
    case (Add c st)
    with AddPeckTask_invariant [OF Cons.prems(1), of NewExtractor NewPeckFilter NewSender interval c st]
    show ?thesis by auto
  next
    case (Remove c)
    with RemovePeckTask_invariant [OF Cons.prems(1), of c] show ?thesis by auto
  next
    case (Start c)
    with Cons.prems(2) show ?thesis by simp
  next
    case (Halt c)
    with Cons.prems(2) show ?thesis by simp
  qed
  then obtain err p1 where s: "serve NewExtractor NewPeckFilter NewSender interval p r = Inr (err, p1)"
    and i: "consistent p1" by blast
  from Cons.IH [OF i] Cons.prems(2) s show ?case by simp
qed

lemma RemovePeckTask_last:
  assumes con: "consistent p"
    and reg: "map_of (nameToPath p) (PeckTaskConfig.Name c) = Some path"
    and lt: "map_of (logTasks p) path = Some lt"
    and only: "\<forall>name. subscribed lt name \<longrightarrow> name = PeckTaskConfig.Name c"
  shows "\<exists>p'. RemovePeckTask p c = Inr (None, p') \<and> map_of (logTasks p') path = None
           \<and> map_of (nameToPath p') (PeckTaskConfig.Name c) = None"
proof -
  from registered_task [OF con reg] lt obtain task where
    task: "map_of (peckTasks lt) (PeckTaskConfig.Name c) = Some task" by auto
  have "map_of (AList.delete (PeckTaskConfig.Name c) (peckTasks lt)) = Map.empty"
  proof (rule ext)
    fix name
    show "map_of (AList.delete (PeckTaskConfig.Name c) (peckTasks lt)) name = None"
      using only by (cases "name = PeckTaskConfig.Name c") (auto simp: delete_conv' subscribed_def)
  qed
  then have "AList.delete (PeckTaskConfig.Name c) (peckTasks lt) = []"
    by (simp only: map_of_eq_empty_iff)
  with RemovePeckTask_result [OF reg lt task] show ?thesis by auto
qed

lemma AddPeckTask_fresh:
  assumes fresh: "map_of (nameToPath p) (PeckTaskConfig.Name c) = None"
    and new: "NewPeckTask NewExtractor NewPeckFilter NewSender interval c st = Inr task"
  shows "\<exists>p' lt. AddPeckTask NewExtractor NewPeckFilter NewSender interval p c st = Inr (None, p')
     \<and> map_of (nameToPath p') = (map_of (nameToPath p))(PeckTaskConfig.Name c \<mapsto> PeckTaskConfig.LogPath c)
     \<and> map_of (logTasks p') (PeckTaskConfig.LogPath c) = Some lt
     \<and> map_of (peckTasks lt) (PeckTaskConfig.Name c) = Some task
     \<and> (\<forall>name. name \<noteq> PeckTaskConfig.Name c \<longrightarrow>
           map_of (peckTasks lt) name =
             (case map_of (logTasks p) (PeckTaskConfig.LogPath c) of
                None \<Rightarrow> None | Some lt0 \<Rightarrow> map_of (peckTasks lt0) name))
     \<and> (\<forall>path. path \<noteq> PeckTaskConfig.LogPath c \<longrightarrow>
           map_of (logTasks p') path = map_of (logTasks p) path)"
proof -
  from AddPeckTask_result [OF fresh new] obtain p' lt0 where
    add: "AddPeckTask NewExtractor NewPeckFilter NewSender interval p c st = Inr (None, p')"
    and lt0: "lt0 = (case map_of (logTasks p) (PeckTaskConfig.LogPath c) of
                None \<Rightarrow> NewLogTask (PeckTaskConfig.LogPath c) | Some lt \<Rightarrow> lt)"
    and lts: "map_of (logTasks p') =
          (map_of (logTasks p))(PeckTaskConfig.LogPath c \<mapsto>
             lt0\<lparr>peckTasks := AList.update (PeckTaskConfig.Name c) task (peckTasks lt0)\<rparr>)"
    and names: "map_of (nameToPath p') =
          (map_of (nameToPath p))(PeckTaskConfig.Name c \<mapsto> PeckTaskConfig.LogPath c)"
    by blast
  let ?lt = "lt0\<lparr>peckTasks := AList.update (PeckTaskConfig.Name c) task (peckTasks lt0)\<rparr>"
  have a: "map_of (logTasks p') (PeckTaskConfig.LogPath c) = Some ?lt"
    by (simp add: lts)
  have b: "map_of (peckTasks ?lt) (PeckTaskConfig.Name c) = Some task"
    by (simp add: update_conv')
  have c: "\<forall>name. name \<noteq> PeckTaskConfig.Name c \<longrightarrow>
           map_of (peckTasks ?lt) name =
             (case map_of (logTasks p) (PeckTaskConfig.LogPath c) of
                None \<Rightarrow> None | Some lt0 \<Rightarrow> map_of (peckTasks lt0) name)"
    by (simp add: update_conv' lt0 NewLogTask_def split: option.splits)
  have d: "\<forall>path. path \<noteq> PeckTaskConfig.LogPath c \<longrightarrow>
           map_of (logTasks p') path = map_of (logTasks p) path"
    by (simp add: lts)
  from add names a b c d show ?thesis by blast
qed

lemma AddPeckTask_refused:
  assumes "map_of (nameToPath p) (PeckTaskConfig.Name c) = None"
    and "NewPeckTask NewExtractor NewPeckFilter NewSender interval c st = Inl err"
  shows "AddPeckTask NewExtractor NewPeckFilter NewSender interval p c st = Inr (Some (Err err), p)"
  using assms by (simp add: AddPeckTask_def)

lemma RemovePeckTask_registered:
  assumes con: "consistent p"
    and reg: "map_of (nameToPath p) (PeckTaskConfig.Name c) = Some path"
  shows "\<exists>p'. RemovePeckTask p c = Inr (None, p')
     \<and> map_of (nameToPath p') = (map_of (nameToPath p))(PeckTaskConfig.Name c := None)
     \<and> (\<forall>path' lt. map_of (logTasks p') path' = Some lt \<longrightarrow> \<not> subscribed lt (PeckTaskConfig.Name c))
     \<and> (\<forall>path'. path' \<noteq> path \<longrightarrow> map_of (logTasks p') path' = map_of (logTasks p) path')"
proof -
  from registered_task [OF con reg] obtain lt task where
    lt: "map_of (logTasks p) path = Some lt"
    and task: "map_of (peckTasks lt) (PeckTaskConfig.Name c) = Some task" by blast
  from RemovePeckTask_result [OF reg lt task] obtain p' where
    rm: "RemovePeckTask p c = Inr (None, p')"
    and names: "map_of (nameToPath p') = (map_of (nameToPath p))(PeckTaskConfig.Name c := None)"
    and lts: "map_of (logTasks p') =
         (if AList.delete (PeckTaskConfig.Name c) (peckTasks lt) = []
          then (map_of (logTasks p))(path := None)
          else (map_of (logTasks p))(path \<mapsto>
                 lt\<lparr>peckTasks := AList.delete (PeckTaskConfig.Name c) (peckTasks lt)\<rparr>))"
    by blast
  from RemovePeckTask_invariant [OF con, of c] rm have con': "consistent p'"
    by simp
  have gone: "map_of (nameToPath p') (PeckTaskConfig.Name c) = None"
    by (simp add: names)
  have a: "\<forall>path' lt. map_of (logTasks p') path' = Some lt \<longrightarrow> \<not> subscribed lt (PeckTaskConfig.Name c)"
  proof (intro allI impI notI)
    fix path' lt'
    assume "map_of (logTasks p') path' = Some lt'" and "subscribed lt' (PeckTaskConfig.Name c)"
    with con' have "map_of (nameToPath p') (PeckTaskConfig.Name c) = Some path'"
      unfolding consistent_def by blast
    with gone show False by simp
  qed
  have b: "\<forall>path'. path' \<noteq> path \<longrightarrow> map_of (logTasks p') path' = map_of (logTasks p) path'"
    by (simp add: lts)
  from rm names a b show ?thesis by blast
qed

lemma RemovePeckTask_unregistered:
  assumes "map_of (nameToPath p) (PeckTaskConfig.Name c) = None"
  shows "RemovePeckTask p c = Inr (Some (Err ''Peck task name not exist''), p)"
  using assms by (simp add: RemovePeckTask_def)

text \<open>
  C4. From the empty registry, every sequence of \<open>AddPeckTask\<close> and \<open>RemovePeckTask\<close> calls
  runs without a panic and leaves \<open>nameToPath\<close> and \<open>logTasks\<close> consistent: a name is in
  \<open>nameToPath\<close> iff some \<open>LogTask\<close> holds its task, the path of a registered name is in
  \<open>logTasks\<close> with the task subscribed there, no \<open>LogTask\<close> in \<open>logTasks\<close> is empty and all its
  subscribers are registered under its path, removing the only task of a path removes the
  path's \<open>LogTask\<close>, and adding a registered name fails with "Peck task already exist" and
  returns the registry unchanged. In the registry so reached the two operations do their
  work: adding a name that is not registered, when \<open>NewPeckTask\<close> builds the task, returns
  nil, maps the name to the configuration's path and subscribes the built task in that
  path's \<open>LogTask\<close> beside the subscribers it had, other paths untouched (when \<open>NewPeckTask\<close>
  fails, its error is returned and the registry is unchanged); removing a registered name
  returns nil, takes the name out of \<open>nameToPath\<close> and leaves it subscribed nowhere, other
  paths untouched; removing a name that is not registered fails with "Peck task name not
  exist" and returns the registry unchanged.
\<close>

theorem registry_stays_consistent:
  assumes "\<forall>r \<in> set rs. isAddRemove r"
  shows "\<exists>p. serveAll NewExtractor NewPeckFilter NewSender interval (emptyPecker d) rs = Inr p
     \<and> (\<forall>name. map_of (nameToPath p) name \<noteq> None \<longleftrightarrow>
           (\<exists>path lt. map_of (logTasks p) path = Some lt \<and> subscribed lt name))
     \<and> (\<forall>name path. map_of (nameToPath p) name = Some path \<longrightarrow>
           (\<exists>lt. map_of (logTasks p) path = Some lt \<and> subscribed lt name))
     \<and> (\<forall>path lt. map_of (logTasks p) path = Some lt \<longrightarrow>
           \<not> LogTask_Empty lt \<and> (\<forall>name. subscribed lt name \<longrightarrow> map_of (nameToPath p) name = Some path))
     \<and> (\<forall>c path lt.
           map_of (nameToPath p) (PeckTaskConfig.Name c) = Some path \<and> map_of (logTasks p) path = Some lt
           \<and> (\<forall>name. subscribed lt name \<longrightarrow> name = PeckTaskConfig.Name c) \<longrightarrow>
           (\<exists>p'. RemovePeckTask p c = Inr (None, p') \<and> map_of (logTasks p') path = None
                 \<and> map_of (nameToPath p') (PeckTaskConfig.Name c) = None))
     \<and> (\<forall>c st. map_of (nameToPath p) (PeckTaskConfig.Name c) \<noteq> None \<longrightarrow>
           AddPeckTask NewExtractor NewPeckFilter NewSender interval p c st
             = Inr (Some (Err ''Peck task already exist''), p))
     \<and> (\<forall>c st task.
           map_of (nameToPath p) (PeckTaskConfig.Name c) = None
           \<and> NewPeckTask NewExtractor NewPeckFilter NewSender interval c st = Inr task \<longrightarrow>
           (\<exists>p' lt. AddPeckTask NewExtractor NewPeckFilter NewSender interval p c st = Inr (None, p')
              \<and> map_of (nameToPath p') =
                  (map_of (nameToPath p))(PeckTaskConfig.Name c \<mapsto> PeckTaskConfig.LogPath c)
              \<and> map_of (logTasks p') (PeckTaskConfig.LogPath c) = Some lt
              \<and> map_of (peckTasks lt) (PeckTaskConfig.Name c) = Some task
              \<and> (\<forall>name. name \<noteq> PeckTaskConfig.Name c \<longrightarrow>
                    map_of (peckTasks lt) name =
                      (case map_of (logTasks p) (PeckTaskConfig.LogPath c) of
                         None \<Rightarrow> None | Some lt0 \<Rightarrow> map_of (peckTasks lt0) name))
              \<and> (\<forall>path. path \<noteq> PeckTaskConfig.LogPath c \<longrightarrow>
                    map_of (logTasks p') path = map_of (logTasks p) path)))
     \<and> (\<forall>c st err.
           map_of (nameToPath p) (PeckTaskConfig.Name c) = None
           \<and> NewPeckTask NewExtractor NewPeckFilter NewSender interval c st = Inl err \<longrightarrow>
           AddPeckTask NewExtractor NewPeckFilter NewSender interval p c st
             = Inr (Some (Err err), p))
     \<and> (\<forall>c path. map_of (nameToPath p) (PeckTaskConfig.Name c) = Some path \<longrightarrow>
           (\<exists>p'. RemovePeckTask p c = Inr (None, p')
              \<and> map_of (nameToPath p') = (map_of (nameToPath p))(PeckTaskConfig.Name c := None)
              \<and> (\<forall>path' lt. map_of (logTasks p') path' = Some lt \<longrightarrow>
                    \<not> subscribed lt (PeckTaskConfig.Name c))
              \<and> (\<forall>path'. path' \<noteq> path \<longrightarrow> map_of (logTasks p') path' = map_of (logTasks p) path')))
     \<and> (\<forall>c. map_of (nameToPath p) (PeckTaskConfig.Name c) = None \<longrightarrow>
           RemovePeckTask p c = Inr (Some (Err ''Peck task name not exist''), p))"
proof -
  from serveAll_consistent [OF _ assms, of "emptyPecker d" NewExtractor NewPeckFilter NewSender interval]
    emptyPecker_invariant [of d]
  obtain p where run: "serveAll NewExtractor NewPeckFilter NewSender interval (emptyPecker d) rs = Inr p"
    and con: "consistent p" by blast
  from con have con1: "\<And>name path. map_of (nameToPath p) name = Some path \<Longrightarrow>
        \<exists>lt. map_of (logTasks p) path = Some lt \<and> subscribed lt name"
      and con2: "\<And>path lt. map_of (logTasks p) path = Some lt \<Longrightarrow> peckTasks lt \<noteq> []"
      and con3: "\<And>path lt name. map_of (logTasks p) path = Some lt \<Longrightarrow>
        subscribed lt name \<Longrightarrow> map_of (nameToPath p) name = Some path"
    unfolding consistent_def by blast+
  have c1: "\<forall>name. map_of (nameToPath p) name \<noteq> None \<longleftrightarrow>
           (\<exists>path lt. map_of (logTasks p) path = Some lt \<and> subscribed lt name)"
    using con1 con3 by fastforce
  have c2: "\<forall>name path. map_of (nameToPath p) name = Some path \<longrightarrow>
           (\<exists>lt. map_of (logTasks p) path = Some lt \<and> subscribed lt name)"
    using con1 by blast
  have c3: "\<forall>path lt. map_of (logTasks p) path = Some lt \<longrightarrow>
           \<not> LogTask_Empty lt \<and> (\<forall>name. subscribed lt name \<longrightarrow> map_of (nameToPath p) name = Some path)"
    using con2 con3 by (simp add: LogTask_Empty_def)
  have c4: "\<forall>c path lt.
           map_of (nameToPath p) (PeckTaskConfig.Name c) = Some path \<and> map_of (logTasks p) path = Some lt
           \<and> (\<forall>name. subscribed lt name \<longrightarrow> name = PeckTaskConfig.Name c) \<longrightarrow>
           (\<exists>p'. RemovePeckTask p c = Inr (None, p') \<and> map_of (logTasks p') path = None
                 \<and> map_of (nameToPath p') (PeckTaskConfig.Name c) = None)"
    using RemovePeckTask_last [OF con] by blast
  have c5: "\<forall>c st. map_of (nameToPath p) (PeckTaskConfig.Name c) \<noteq> None \<longrightarrow>
           AddPeckTask NewExtractor NewPeckFilter NewSender interval p c st
             = Inr (Some (Err ''Peck task already exist''), p)"
    by (simp add: AddPeckTask_def)
  have c6: "\<forall>c st task.
           map_of (nameToPath p) (PeckTaskConfig.Name c) = None
           \<and> NewPeckTask NewExtractor NewPeckFilter NewSender interval c st = Inr task \<longrightarrow>
           (\<exists>p' lt. AddPeckTask NewExtractor NewPeckFilter NewSender interval p c st = Inr (None, p')
              \<and> map_of (nameToPath p') =
                  (map_of (nameToPath p))(PeckTaskConfig.Name c \<mapsto> PeckTaskConfig.LogPath c)
              \<and> map_of (logTasks p') (PeckTaskConfig.LogPath c) = Some lt
              \<and> map_of (peckTasks lt) (PeckTaskConfig.Name c) = Some task
              \<and> (\<forall>name. name \<noteq> PeckTaskConfig.Name c \<longrightarrow>
                    map_of (peckTasks lt) name =
                      (case map_of (logTasks p) (PeckTaskConfig.LogPath c) of
                         None \<Rightarrow> None | Some lt0 \<Rightarrow> map_of (peckTasks lt0) name))
              \<and> (\<forall>path. path \<noteq> PeckTaskConfig.LogPath c \<longrightarrow>
                    map_of (logTasks p') path = map_of (logTasks p) path))"
    using AddPeckTask_fresh [of p] by (intro allI impI) (elim conjE, assumption)
  have c7: "\<forall>c st err.
           map_of (nameToPath p) (PeckTaskConfig.Name c) = None
           \<and> NewPeckTask NewExtractor NewPeckFilter NewSender interval c st = Inl err \<longrightarrow>
           AddPeckTask NewExtractor NewPeckFilter NewSender interval p c st
             = Inr (Some (Err err), p)"
    using AddPeckTask_refused [of p] by (intro allI impI) (elim conjE, assumption)
  have c8: "\<forall>c path. map_of (nameToPath p) (PeckTaskConfig.Name c) = Some path \<longrightarrow>
           (\<exists>p'. RemovePeckTask p c = Inr (None, p')
              \<and> map_of (nameToPath p') = (map_of (nameToPath p))(PeckTaskConfig.Name c := None)
              \<and> (\<forall>path' lt. map_of (logTasks p') path' = Some lt \<longrightarrow>
                    \<not> subscribed lt (PeckTaskConfig.Name c))
              \<and> (\<forall>path'. path' \<noteq> path \<longrightarrow> map_of (logTasks p') path' = map_of (logTasks p) path'))"
    using RemovePeckTask_registered [OF con] by (intro allI impI)
  have c9: "\<forall>c. map_of (nameToPath p) (PeckTaskConfig.Name c) = None \<longrightarrow>
           RemovePeckTask p c = Inr (Some (Err ''Peck task name not exist''), p)"
    using RemovePeckTask_unregistered [of p] by (intro allI impI)
  show ?thesis
    by (rule exI [of _ p]) (intro conjI run c1 c2 c3 c4 c5 c6 c7 c8 c9)
qed

lemma NewPeckTask_example:
  "NewPeckTask (\<lambda>c. Inr (extractor exampleTask)) (\<lambda>k. filter exampleTask)
     (\<lambda>c. Inr (sender exampleTask)) 60 exampleTaskConfig None
   = Inr (exampleTask\<lparr>Stat := (Stat exampleTask)\<lparr>Stop := True\<rparr>\<rparr>)"
  by (simp add: NewPeckTask_def exampleTaskConfig_def exampleTask_def)

lemma run1:
  "serveAll (\<lambda>c. Inr (extractor exampleTask)) (\<lambda>k. filter exampleTask)
     (\<lambda>c. Inr (sender exampleTask)) 60 (emptyPecker emptyDB)
     [Add exampleTaskConfig None, Start exampleTaskConfig] = Inr startedPecker"
  by (simp add: AddPeckTask_def StartPeckTask_def NewPeckTask_example Pecker_record_def
        emptyPecker_def emptyDB_def NewLogTask_def LogTask_AddPeckTask_def SaveConfig_def
        SaveStat_def LogTask_StartPeckTask_def GetStat_def PeckTask_Start_def LogTask_IsStop_def
        LogTask_Start_def startedPecker_def Let_def)
    (simp add: exampleTaskConfig_def exampleTask_def)

lemma run3:
  "serveAll (\<lambda>c. Inr (extractor exampleTask)) (\<lambda>k. filter exampleTask)
     (\<lambda>c. Inr (sender exampleTask)) 60 (emptyPecker emptyDB)
     [Add exampleTaskConfig None, Add exampleTaskConfig2 None, Remove exampleTaskConfig]
   = Inr remainingPecker"
  by (simp add: AddPeckTask_def RemovePeckTask_def NewPeckTask_def Pecker_record_def
        emptyPecker_def emptyDB_def NewLogTask_def LogTask_AddPeckTask_def SaveConfig_def
        SaveStat_def LogTask_RemovePeckTask_def LogTask_Empty_def RemoveConfig_def RemoveStat_def
        Let_def exampleTaskConfig2_def exampleTaskConfig_def exampleTask_def remainingPecker_def
        exampleTask2_def)

theorem registry_stays_consistent_witness:
  "isAddRemove (Add exampleTaskConfig None) \<and> isAddRemove (Add exampleTaskConfig2 None)
   \<and> isAddRemove (Remove exampleTaskConfig)
   \<and> serveAll (\<lambda>c. Inr (extractor exampleTask)) (\<lambda>k. filter exampleTask)
         (\<lambda>c. Inr (sender exampleTask)) 60 (emptyPecker emptyDB)
         [Add exampleTaskConfig None, Add exampleTaskConfig2 None, Remove exampleTaskConfig]
       = Inr remainingPecker
   \<and> map_of (nameToPath remainingPecker) ''t2'' = Some ''/var/log/a.log''
   \<and> map_of (nameToPath remainingPecker) ''t1'' = None
   \<and> (\<exists>lt. map_of (logTasks remainingPecker) ''/var/log/a.log'' = Some lt \<and> subscribed lt ''t2''
          \<and> \<not> LogTask_Empty lt)
   \<and> AddPeckTask (\<lambda>c. Inr (extractor exampleTask)) (\<lambda>k. filter exampleTask)
         (\<lambda>c. Inr (sender exampleTask)) 60 remainingPecker exampleTaskConfig2 None
       = Inr (Some (Err ''Peck task already exist''), remainingPecker)
   \<and> (\<exists>p'. RemovePeckTask remainingPecker exampleTaskConfig2 = Inr (None, p')
          \<and> map_of (logTasks p') ''/var/log/a.log'' = None
          \<and> map_of (nameToPath p') ''t2'' = None)
   \<and> (\<exists>p' lt. AddPeckTask (\<lambda>c. Inr (extractor exampleTask)) (\<lambda>k. filter exampleTask)
                 (\<lambda>c. Inr (sender exampleTask)) 60 remainingPecker exampleTaskConfig None
               = Inr (None, p')
          \<and> map_of (nameToPath p') ''t1'' = Some ''/var/log/a.log''
          \<and> map_of (nameToPath p') ''t2'' = Some ''/var/log/a.log''
          \<and> map_of (logTasks p') ''/var/log/a.log'' = Some lt
          \<and> map_of (peckTasks lt) ''t1'' = Some (exampleTask\<lparr>Stat := (Stat exampleTask)\<lparr>Stop := True\<rparr>\<rparr>)
          \<and> map_of (peckTasks lt) ''t2'' = Some exampleTask2)
   \<and> RemovePeckTask remainingPecker exampleTaskConfig
       = Inr (Some (Err ''Peck task name not exist''), remainingPecker)"
proof -
  let ?E = "\<lambda>c::string. (Inr (extractor exampleTask) :: string + (string \<Rightarrow> fields))"
  let ?F = "\<lambda>k::string. filter exampleTask"
  let ?S = "\<lambda>c::string. (Inr (sender exampleTask) :: string + Sender)"
  let ?rs = "[Add exampleTaskConfig None, Add exampleTaskConfig2 None, Remove exampleTaskConfig]"
  let ?p = remainingPecker
  let ?path = "''/var/log/a.log''"
  have h: "\<forall>r \<in> set ?rs. isAddRemove r"
    by simp
  have n1: "PeckTaskConfig.Name exampleTaskConfig = ''t1''"
    and n2: "PeckTaskConfig.Name exampleTaskConfig2 = ''t2''"
    and l1: "PeckTaskConfig.LogPath exampleTaskConfig = ?path"
    by (simp_all add: exampleTaskConfig_def exampleTaskConfig2_def exampleTask_def)
  have reg2: "map_of (nameToPath ?p) ''t2'' = Some ?path"
    and reg1: "map_of (nameToPath ?p) ''t1'' = None"
    by (simp_all add: remainingPecker_def)
  define lt0 where "lt0 = \<lparr>LogTask.LogPath = ?path, peckTasks = [(''t2'', exampleTask2)], stop = True\<rparr>"
  have lt0: "map_of (logTasks ?p) ?path = Some lt0"
    by (simp add: remainingPecker_def lt0_def)
  have only: "\<forall>name. subscribed lt0 name \<longrightarrow> name = ''t2''"
    by (simp add: subscribed_def lt0_def)
  have t2: "map_of (peckTasks lt0) ''t2'' = Some exampleTask2"
    by (simp add: lt0_def)
  from registry_stays_consistent [OF h, of ?E ?F ?S 60 emptyDB] run3
  have inv: "(\<forall>path lt. map_of (logTasks ?p) path = Some lt \<longrightarrow>
           \<not> LogTask_Empty lt \<and> (\<forall>name. subscribed lt name \<longrightarrow> map_of (nameToPath ?p) name = Some path))"
    and sub: "(\<forall>name path. map_of (nameToPath ?p) name = Some path \<longrightarrow>
           (\<exists>lt. map_of (logTasks ?p) path = Some lt \<and> subscribed lt name))"
    and last: "(\<forall>c path lt.
           map_of (nameToPath ?p) (PeckTaskConfig.Name c) = Some path \<and> map_of (logTasks ?p) path = Some lt
           \<and> (\<forall>name. subscribed lt name \<longrightarrow> name = PeckTaskConfig.Name c) \<longrightarrow>
           (\<exists>p'. RemovePeckTask ?p c = Inr (None, p') \<and> map_of (logTasks p') path = None
                 \<and> map_of (nameToPath p') (PeckTaskConfig.Name c) = None))"
    and dup: "(\<forall>c st. map_of (nameToPath ?p) (PeckTaskConfig.Name c) \<noteq> None \<longrightarrow>
           AddPeckTask ?E ?F ?S 60 ?p c st = Inr (Some (Err ''Peck task already exist''), ?p))"
    and fresh: "(\<forall>c st task.
           map_of (nameToPath ?p) (PeckTaskConfig.Name c) = None
           \<and> NewPeckTask ?E ?F ?S 60 c st = Inr task \<longrightarrow>
           (\<exists>p' lt. AddPeckTask ?E ?F ?S 60 ?p c st = Inr (None, p')
              \<and> map_of (nameToPath p') =
                  (map_of (nameToPath ?p))(PeckTaskConfig.Name c \<mapsto> PeckTaskConfig.LogPath c)
              \<and> map_of (logTasks p') (PeckTaskConfig.LogPath c) = Some lt
              \<and> map_of (peckTasks lt) (PeckTaskConfig.Name c) = Some task
              \<and> (\<forall>name. name \<noteq> PeckTaskConfig.Name c \<longrightarrow>
                    map_of (peckTasks lt) name =
                      (case map_of (logTasks ?p) (PeckTaskConfig.LogPath c) of
                         None \<Rightarrow> None | Some lt0 \<Rightarrow> map_of (peckTasks lt0) name))
              \<and> (\<forall>path. path \<noteq> PeckTaskConfig.LogPath c \<longrightarrow>
                    map_of (logTasks p') path = map_of (logTasks ?p) path)))"
    and absent: "(\<forall>c. map_of (nameToPath ?p) (PeckTaskConfig.Name c) = None \<longrightarrow>
           RemovePeckTask ?p c = Inr (Some (Err ''Peck task name not exist''), ?p))"
    by simp_all
  from sub reg2 inv have a: "\<exists>lt. map_of (logTasks ?p) ?path = Some lt \<and> subscribed lt ''t2''
          \<and> \<not> LogTask_Empty lt"
    by blast
  from dup [rule_format, of exampleTaskConfig2 None] reg2 n2
  have b: "AddPeckTask ?E ?F ?S 60 ?p exampleTaskConfig2 None
       = Inr (Some (Err ''Peck task already exist''), ?p)"
    by simp
  from last [rule_format, of exampleTaskConfig2 ?path lt0] reg2 lt0 only n2
  have c: "\<exists>p'. RemovePeckTask ?p exampleTaskConfig2 = Inr (None, p')
          \<and> map_of (logTasks p') ?path = None \<and> map_of (nameToPath p') ''t2'' = None"
    by simp
  from fresh [rule_format, of exampleTaskConfig None, OF conjI [OF _ NewPeckTask_example]] reg1 n1
  obtain p' lt where add: "AddPeckTask ?E ?F ?S 60 ?p exampleTaskConfig None = Inr (None, p')"
    and names: "map_of (nameToPath p') = (map_of (nameToPath ?p))(''t1'' \<mapsto> ?path)"
    and lt: "map_of (logTasks p') ?path = Some lt"
    and task: "map_of (peckTasks lt) ''t1'' = Some (exampleTask\<lparr>Stat := (Stat exampleTask)\<lparr>Stop := True\<rparr>\<rparr>)"
    and others: "\<forall>name. name \<noteq> ''t1'' \<longrightarrow>
                    map_of (peckTasks lt) name =
                      (case map_of (logTasks ?p) ?path of
                         None \<Rightarrow> None | Some lt0 \<Rightarrow> map_of (peckTasks lt0) name)"
    unfolding l1 by auto
  from others lt0 t2 have t2': "map_of (peckTasks lt) ''t2'' = Some exampleTask2"
    by simp
  from names reg2 have r1: "map_of (nameToPath p') ''t1'' = Some ?path"
    and r2: "map_of (nameToPath p') ''t2'' = Some ?path"
    by simp_all
  from add r1 r2 lt task t2' have d: "\<exists>p' lt. AddPeckTask ?E ?F ?S 60 ?p exampleTaskConfig None
               = Inr (None, p')
          \<and> map_of (nameToPath p') ''t1'' = Some ?path
          \<and> map_of (nameToPath p') ''t2'' = Some ?path
          \<and> map_of (logTasks p') ?path = Some lt
          \<and> map_of (peckTasks lt) ''t1'' = Some (exampleTask\<lparr>Stat := (Stat exampleTask)\<lparr>Stop := True\<rparr>\<rparr>)
          \<and> map_of (peckTasks lt) ''t2'' = Some exampleTask2"
    by blast
  from absent [rule_format, of exampleTaskConfig] reg1 n1
  have e: "RemovePeckTask ?p exampleTaskConfig
       = Inr (Some (Err ''Peck task name not exist''), ?p)"
    by simp
  from run3 reg2 reg1 a b c d e show ?thesis
    by simp
qed

text \<open>
  C7. In a registry reached from the empty one by well-formed requests (a stat handed to
  \<open>AddPeckTask\<close> bears the task's name, as in \<open>restorePeckTasks\<close>, or is nil), for a
  registered task whose persisted stat has \<open>Stop = false\<close>: \<open>StartPeckTask\<close> returns "Task
  already started" and the registry it leaves is the one it found, \<open>LogTask\<close>s and store
  included; \<open>StopPeckTask\<close> then returns nil, the persisted stat has \<open>Stop = true\<close>, and the
  subscribed task is stopped.
\<close>

theorem StartPeckTask_already_started:
  assumes wf: "\<forall>r \<in> set rs. wellFormed r"
    and run: "serveAll NewExtractor NewPeckFilter NewSender interval (emptyPecker d) rs = Inr p"
    and reg: "map_of (nameToPath p) (PeckTaskConfig.Name c) \<noteq> None"
    and stat: "map_of (stats (db p)) (PeckTaskConfig.Name c) = Some st" and started: "\<not> Stop st"
  shows "StartPeckTask p c = Inr (Some (Err ''Task already started''), p)
     \<and> (\<exists>p'. StopPeckTask p c = Inr (None, p')
            \<and> map_of (stats (db p')) (PeckTaskConfig.Name c) = Some (st\<lparr>Stop := True\<rparr>)
            \<and> nameToPath p' = nameToPath p
            \<and> (\<exists>path lt task. map_of (nameToPath p') (PeckTaskConfig.Name c) = Some path
                  \<and> map_of (logTasks p') path = Some lt
                  \<and> map_of (peckTasks lt) (PeckTaskConfig.Name c) = Some task
                  \<and> PeckTask_IsStop task))"
proof -
  let ?n = "PeckTaskConfig.Name c"
  from serveAll_invariant [OF _ _ wf, of "emptyPecker d" NewExtractor NewPeckFilter NewSender interval]
    emptyPecker_invariant [of d] run
  have con: "consistent p" and syn: "synced p" by auto
  from reg obtain path where path: "map_of (nameToPath p) ?n = Some path" by auto
  from registered_task [OF con path] obtain lt task where
    lt: "map_of (logTasks p) path = Some lt" and task: "map_of (peckTasks lt) ?n = Some task"
    by blast
  from registered_stat [OF syn lt task] stat have
    st: "Stop st = Stop (Stat task)" "PeckTaskStat.Name st = ?n" by auto
  have same: "PeckTask_Start task = task"
    using st(1) started by (simp add: PeckTask_Start_def)
  have "AList.update ?n task (peckTasks lt) = peckTasks lt"
    using task by (rule update_triv)
  then have lt_same: "lt\<lparr>peckTasks := AList.update ?n (PeckTask_Start task) (peckTasks lt)\<rparr> = lt"
    by (simp add: same)
  have lts_same: "AList.update path lt (logTasks p) = logTasks p"
    using lt by (rule update_triv)
  have c1: "StartPeckTask p c = Inr (Some (Err ''Task already started''), p)"
    using path lt task stat started lt_same lts_same
    by (simp add: StartPeckTask_def LogTask_StartPeckTask_def GetStat_def Let_def)
  define lt1 where "lt1 = lt\<lparr>peckTasks := AList.update ?n (PeckTask_Stop task) (peckTasks lt)\<rparr>"
  define p' where "p' = p\<lparr>logTasks := AList.update path lt1 (logTasks p),
                           db := SaveStat (db p) (st\<lparr>Stop := True\<rparr>)\<rparr>"
  have c2: "StopPeckTask p c = Inr (None, p')"
    using path lt task stat started
    by (simp add: StopPeckTask_def LogTask_StopPeckTask_def GetStat_def Let_def p'_def lt1_def)
  have c3: "map_of (stats (db p')) ?n = Some (st\<lparr>Stop := True\<rparr>)"
    using st(2) by (simp add: p'_def SaveStat_def update_conv')
  have c4: "nameToPath p' = nameToPath p"
    by (simp add: p'_def)
  have c5: "map_of (nameToPath p') ?n = Some path \<and> map_of (logTasks p') path = Some lt1
              \<and> map_of (peckTasks lt1) ?n = Some (PeckTask_Stop task)
              \<and> PeckTask_IsStop (PeckTask_Stop task)"
    using path by (simp add: p'_def lt1_def update_conv' PeckTask_IsStop_def PeckTask_Stop_def)
  from c1 c2 c3 c4 c5 show ?thesis by blast
qed

theorem StartPeckTask_already_started_witness:
  "wellFormed (Add exampleTaskConfig None) \<and> wellFormed (Start exampleTaskConfig)
   \<and> serveAll (\<lambda>c. Inr (extractor exampleTask)) (\<lambda>k. filter exampleTask)
        (\<lambda>c. Inr (sender exampleTask)) 60 (emptyPecker emptyDB)
        [Add exampleTaskConfig None, Start exampleTaskConfig] = Inr startedPecker
   \<and> map_of (nameToPath startedPecker) (PeckTaskConfig.Name exampleTaskConfig)
        = Some ''/var/log/a.log''
   \<and> map_of (stats (db startedPecker)) (PeckTaskConfig.Name exampleTaskConfig)
        = Some (Stat exampleTask)
   \<and> \<not> Stop (Stat exampleTask)
   \<and> StartPeckTask startedPecker exampleTaskConfig
        = Inr (Some (Err ''Task already started''), startedPecker)
   \<and> (\<exists>p'. StopPeckTask startedPecker exampleTaskConfig = Inr (None, p')
          \<and> map_of (stats (db p')) (PeckTaskConfig.Name exampleTaskConfig)
               = Some ((Stat exampleTask)\<lparr>Stop := True\<rparr>))"
proof -
  have wf: "\<forall>r \<in> set [Add exampleTaskConfig None, Start exampleTaskConfig]. wellFormed r"
    by simp
  have reg: "map_of (nameToPath startedPecker) (PeckTaskConfig.Name exampleTaskConfig)
        = Some ''/var/log/a.log''"
    by (simp add: startedPecker_def exampleTaskConfig_def exampleTask_def)
  then have reg': "map_of (nameToPath startedPecker) (PeckTaskConfig.Name exampleTaskConfig) \<noteq> None"
    by simp
  have stat: "map_of (stats (db startedPecker)) (PeckTaskConfig.Name exampleTaskConfig)
        = Some (Stat exampleTask)"
    by (simp add: startedPecker_def exampleTaskConfig_def exampleTask_def)
  have started: "\<not> Stop (Stat exampleTask)"
    by (simp add: exampleTask_def)
  from StartPeckTask_already_started [OF wf run1 reg' stat started] reg stat started run1
  show ?thesis by auto
qed

end
